theory Spec2Isabelle
  imports Complex_Main
begin

section \<open>Voxel grids\<close>

text \<open>
  A voxel grid is a flat JavaScript array of booleans of side length \<open>n\<close>, read through
  \<^verbatim>\<open>voxelData[index]\<close> with \<^verbatim>\<open>index = x + y * gridSize + z * gridSize * gridSize\<close>.
  Reading an array outside its length yields \<^verbatim>\<open>undefined\<close>, which is falsy; \<open>cell\<close>
  is that read followed by the truthiness test, so an out-of-range read is \<open>False\<close>.
  Grid sizes and coordinates are JavaScript numbers holding integers and are modelled as
  unbounded \<open>int\<close>; a position \<^verbatim>\<open>{x, y, z}\<close> is a triple.
\<close>

type_synonym voxels = "bool list"

type_synonym pos = "int \<times> int \<times> int"

definition cell :: "voxels \<Rightarrow> int \<Rightarrow> bool" where
  "cell vd i = (0 \<le> i \<and> nat i < length vd \<and> vd ! nat i)"

text \<open>
  The occupied cells of a grid of side \<open>n\<close>: the coordinates inside \<open>[0, n)\<close> on every
  axis whose cell is set.
\<close>

definition occupied :: "voxels \<Rightarrow> int \<Rightarrow> pos \<Rightarrow> bool" where
  "occupied vd n p =
     (case p of (x, y, z) \<Rightarrow>
        0 \<le> x \<and> x < n \<and> 0 \<le> y \<and> y < n \<and> 0 \<le> z \<and> z < n
        \<and> cell vd (x + y * n + z * n * n))"

text \<open>The coordinates of the cell stored at a linear index.\<close>

definition position_of :: "int \<Rightarrow> nat \<Rightarrow> pos" where
  "position_of n i = (int i mod n, (int i div n) mod n, int i div (n * n))"

section \<open>Shape validator\<close>

text \<open>
  The scan that opens both \<^verbatim>\<open>findConnectedComponents\<close> and \<^verbatim>\<open>isShapeConnected\<close>:
  three nested loops (\<open>x\<close> outermost, \<open>z\<close> innermost) pushing the position of every set
  cell.
\<close>

definition voxelPositions :: "voxels \<Rightarrow> int \<Rightarrow> pos list" where
  "voxelPositions vd n =
     [(x, y, z). x \<leftarrow> [0..n - 1], y \<leftarrow> [0..n - 1], z \<leftarrow> [0..n - 1],
                 cell vd (x + y * n + z * n * n)]"

definition isValidPosition :: "int \<Rightarrow> int \<Rightarrow> int \<Rightarrow> int \<Rightarrow> bool" where
  "isValidPosition x y z n = (x \<ge> 0 \<and> x < n \<and> y \<ge> 0 \<and> y < n \<and> z \<ge> 0 \<and> z < n)"

text \<open>
  The body of the loop over the candidate neighbours of the cell taken from the queue,
  the same in both traversals: a bounds check (written inline in
  \<^verbatim>\<open>findConnectedComponents\<close>, through \<^verbatim>\<open>isValidPosition\<close> in
  \<^verbatim>\<open>isShapeConnected\<close>), then the cell read and the visited test; a new cell is added
  to the visited set and pushed on the queue. The visited \<^verbatim>\<open>Set\<close> holds the keys
  \<^verbatim>\<open>`${x},${y},${z}`\<close>, which determine the three integers, so it is a set of positions.
\<close>

definition visit :: "voxels \<Rightarrow> int \<Rightarrow> pos \<Rightarrow> pos set \<times> pos list \<Rightarrow> pos set \<times> pos list" where
  "visit vd n neighbor s =
     (case neighbor of (nx, ny, nz) \<Rightarrow>
      case s of (visited, queue) \<Rightarrow>
        if isValidPosition nx ny nz n then
          (if cell vd (nx + ny * n + nz * n * n) \<and> (nx, ny, nz) \<notin> visited
           then (insert (nx, ny, nz) visited, queue @ [(nx, ny, nz)])
           else (visited, queue))
        else (visited, queue))"

definition directions :: "pos list" where
  "directions = [(1, 0, 0), (-1, 0, 0), (0, 1, 0), (0, -1, 0), (0, 0, 1), (0, 0, -1)]"

definition step_from :: "pos \<Rightarrow> pos \<Rightarrow> pos" where
  "step_from current dir =
     (case current of (x, y, z) \<Rightarrow> case dir of (dx, dy, dz) \<Rightarrow> (x + dx, y + dy, z + dz))"

subsection \<open>Termination of the traversals\<close>

text \<open>
  Every pass of a \<^verbatim>\<open>while (queue.length > 0)\<close> loop removes one cell from the queue and
  pushes only set cells that were not visited before, so the number of unvisited set
  cells plus the queue length decreases.
\<close>

lemma set_voxelPositions: "set (voxelPositions vd n) = {p. occupied vd n p}"
  by (auto simp: voxelPositions_def occupied_def)

definition unvisited :: "voxels \<Rightarrow> int \<Rightarrow> pos set \<Rightarrow> nat" where
  "unvisited vd n visited = card (set (voxelPositions vd n) - visited)"

lemma visit_cases:
  "visit vd n nb (v, q) =
     (if occupied vd n nb \<and> nb \<notin> v then (insert nb v, q @ [nb]) else (v, q))"
  by (cases nb) (auto simp: visit_def occupied_def isValidPosition_def)

lemma fold_visit_result:
  "\<exists>new. fold (visit vd n) nbs (v, q) = (v \<union> set new, q @ new)
         \<and> distinct new \<and> set new = {p \<in> set nbs. occupied vd n p} - v"
proof (induction nbs arbitrary: v q)
  case Nil
  show ?case by simp
next
  case (Cons nb nbs)
  show ?case
  proof (cases "occupied vd n nb \<and> nb \<notin> v")
    case True
    from Cons.IH[of "insert nb v" "q @ [nb]"] obtain new where
      new: "fold (visit vd n) nbs (insert nb v, q @ [nb]) = (insert nb v \<union> set new, (q @ [nb]) @ new)"
        "distinct new" "set new = {p \<in> set nbs. occupied vd n p} - insert nb v"
      by blast
    have "fold (visit vd n) (nb # nbs) (v, q) = (v \<union> set (nb # new), q @ nb # new)"
      using True new(1) by (simp add: visit_cases)
    moreover have "distinct (nb # new)"
      using new(2,3) by auto
    moreover have "set (nb # new) = {p \<in> set (nb # nbs). occupied vd n p} - v"
      using True new(3) by auto
    ultimately show ?thesis by blast
  next
    case False
    from Cons.IH[of v q] obtain new where
      new: "fold (visit vd n) nbs (v, q) = (v \<union> set new, q @ new)"
        "distinct new" "set new = {p \<in> set nbs. occupied vd n p} - v"
      by blast
    have "fold (visit vd n) (nb # nbs) (v, q) = (v \<union> set new, q @ new)"
      using False new(1) by (auto simp: visit_cases)
    moreover have "set new = {p \<in> set (nb # nbs). occupied vd n p} - v"
      using False new(3) by auto
    ultimately show ?thesis using new(2) by blast
  qed
qed

lemma fold_visit_measure:
  assumes "fold (visit vd n) nbs (v, q) = (v', q')"
  shows "unvisited vd n v' + length q' = unvisited vd n v + length q"
proof -
  from fold_visit_result[of vd n nbs v q] assms obtain new where
    new: "v' = v \<union> set new" "q' = q @ new" "distinct new"
      "set new = {p \<in> set nbs. occupied vd n p} - v"
    by auto
  let ?O = "set (voxelPositions vd n)"
  have sub: "set new \<subseteq> ?O - v"
    using new(4) by (auto simp: set_voxelPositions)
  have "?O - v' = (?O - v) - set new"
    using new(1) by auto
  then have "card (?O - v') = card (?O - v) - card (set new)"
    using sub by (simp add: card_Diff_subset)
  moreover have "card (set new) \<le> card (?O - v)"
    using sub by (simp add: card_mono)
  moreover have "card (set new) = length new"
    using new(3) by (simp add: distinct_card)
  ultimately show ?thesis
    by (simp add: unvisited_def new(2))
qed

lemma fold_visit_measure_case:
  "(case fold (visit vd n) nbs (v, q) of (v', q') \<Rightarrow> unvisited vd n v' + length q')
     = unvisited vd n v + length q"
  using fold_visit_measure[of vd n nbs v q]
  by (cases "fold (visit vd n) nbs (v, q)") simp

subsection \<open>findConnectedComponents\<close>

text \<open>
  The \<^verbatim>\<open>while\<close> loop of \<^verbatim>\<open>findConnectedComponents\<close>: \<^verbatim>\<open>queue.shift()\<close>, push the
  cell on the component, then visit the six face neighbours \<^verbatim>\<open>current + dir\<close>.
\<close>

function findConnectedComponents_while ::
  "voxels \<Rightarrow> int \<Rightarrow> pos set \<Rightarrow> pos list \<Rightarrow> pos list \<Rightarrow> pos set \<times> pos list" where
  "findConnectedComponents_while vd n visited [] component = (visited, component)"
| "findConnectedComponents_while vd n visited (current # rest) component =
     (case fold (visit vd n) (map (step_from current) directions) (visited, rest) of
        (visited', queue') \<Rightarrow>
          findConnectedComponents_while vd n visited' queue' (component @ [current]))"
  by pat_completeness auto
termination
  by (relation "measure (\<lambda>(vd, n, visited, queue, component).
        unvisited vd n visited + length queue)")
     (simp_all add: fold_visit_measure)

text \<open>
  The body of \<^verbatim>\<open>for (const voxelPos of voxelPositions)\<close>: an unvisited cell seeds a new
  component, which is appended to \<^verbatim>\<open>components\<close>.
\<close>

definition seed_component ::
  "voxels \<Rightarrow> int \<Rightarrow> pos \<Rightarrow> pos set \<times> pos list list \<Rightarrow> pos set \<times> pos list list" where
  "seed_component vd n voxelPos s =
     (case s of (visited, comps) \<Rightarrow>
        if voxelPos \<notin> visited then
          (case findConnectedComponents_while vd n (insert voxelPos visited) [voxelPos] [] of
             (visited', component) \<Rightarrow> (visited', comps @ [component]))
        else (visited, comps))"

text \<open>
  \<^verbatim>\<open>voxelData\<close> may be \<^verbatim>\<open>null\<close> (\<open>None\<close>): \<^verbatim>\<open>!voxelData\<close> holds for \<^verbatim>\<open>null\<close> and
  \<^verbatim>\<open>undefined\<close> only, an array (even an empty one) being truthy.
\<close>

definition findConnectedComponents :: "voxels option \<Rightarrow> int \<Rightarrow> pos list list" where
  "findConnectedComponents data n =
     (case data of
        None \<Rightarrow> []
      | Some vd \<Rightarrow>
          if n \<le> 0 then []
          else (let vps = voxelPositions vd n
                in if length vps = 0 then []
                   else snd (fold (seed_component vd n) vps ({}, []))))"

subsection \<open>getConnectivityDebugInfo\<close>

datatype js_error = TypeError | RangeError | Error string




subsection \<open>isShapeConnected\<close>

text \<open>
  \<^verbatim>\<open>connectivityType\<close> is a JavaScript string, compared with \<^verbatim>\<open>===\<close> against
  \<^verbatim>\<open>'edge'\<close> and \<^verbatim>\<open>'corner'\<close>.
\<close>

definition faceDirections :: "pos list" where
  "faceDirections = [(1, 0, 0), (-1, 0, 0), (0, 1, 0), (0, -1, 0), (0, 0, 1), (0, 0, -1)]"

definition edgeDirections :: "pos list" where
  "edgeDirections =
     [(1, 1, 0), (1, -1, 0), (-1, 1, 0), (-1, -1, 0),
      (1, 0, 1), (1, 0, -1), (-1, 0, 1), (-1, 0, -1),
      (0, 1, 1), (0, 1, -1), (0, -1, 1), (0, -1, -1)]"

definition cornerDirections :: "pos list" where
  "cornerDirections =
     [(1, 1, 1), (1, 1, -1), (1, -1, 1), (1, -1, -1),
      (-1, 1, 1), (-1, 1, -1), (-1, -1, 1), (-1, -1, -1)]"

definition getNeighbors :: "int \<Rightarrow> int \<Rightarrow> int \<Rightarrow> string \<Rightarrow> pos list" where
  "getNeighbors x y z ctype =
     map (\<lambda>(dx, dy, dz). (x + dx, y + dy, z + dz)) faceDirections
     @ (if ctype = ''edge'' \<or> ctype = ''corner''
        then map (\<lambda>(dx, dy, dz). (x + dx, y + dy, z + dz)) edgeDirections else [])
     @ (if ctype = ''corner''
        then map (\<lambda>(dx, dy, dz). (x + dx, y + dy, z + dz)) cornerDirections else [])"

function isShapeConnected_while ::
  "voxels \<Rightarrow> int \<Rightarrow> string \<Rightarrow> pos set \<Rightarrow> pos list \<Rightarrow> pos set" where
  "isShapeConnected_while vd n ctype visited [] = visited"
| "isShapeConnected_while vd n ctype visited ((x, y, z) # rest) =
     (case fold (visit vd n) (getNeighbors x y z ctype) (visited, rest) of
        (visited', queue') \<Rightarrow> isShapeConnected_while vd n ctype visited' queue')"
  by pat_completeness auto
termination
  by (relation "measure (\<lambda>(vd, n, ctype, visited, queue).
        unvisited vd n visited + length queue)")
     (simp_all add: fold_visit_measure_case)

definition isShapeConnected :: "voxels option \<Rightarrow> int \<Rightarrow> string \<Rightarrow> bool" where
  "isShapeConnected data n ctype =
     (case data of
        None \<Rightarrow> False
      | Some vd \<Rightarrow>
          if n \<le> 0 then False
          else (let vps = voxelPositions vd n
                in if length vps = 0 then False
                   else if length vps = 1 then True
                   else (let visited = isShapeConnected_while vd n ctype {vps ! 0} [vps ! 0]
                         in card visited = length vps)))"

definition isShapeUniform :: "voxels option \<Rightarrow> int \<Rightarrow> string \<Rightarrow> bool" where
  "isShapeUniform data n ctype = isShapeConnected data n ctype"

subsection \<open>validateShape\<close>

text \<open>Decimal rendering of a count inside a template literal.\<close>

fun show_nat :: "nat \<Rightarrow> string" where
  "show_nat n =
     (if n < 10 then [''0123456789'' ! n]
      else show_nat (n div 10) @ [''0123456789'' ! (n mod 10)])"

declare show_nat.simps [simp del]

record format_result =
  isValid :: bool
  errors :: "string list"



section \<open>Shape serializer\<close>

text \<open>
  \<^verbatim>\<open>voxelData.map(voxel => voxel ? '1' : '0').join('')\<close>: every cell becomes a
  one-character string and \<^verbatim>\<open>join('')\<close> concatenates them.
\<close>

definition voxelDataToBinaryString :: "voxels \<Rightarrow> string" where
  "voxelDataToBinaryString vd =
     concat (map (\<lambda>voxel. if voxel then ''1'' else ''0'') vd)"

text \<open>
  \<^verbatim>\<open>binaryString.split('').map(bit => bit === '1')\<close>: \<^verbatim>\<open>split('')\<close> cuts the
  string into its one-character strings (none for the empty string).
\<close>

definition split_chars :: "string \<Rightarrow> string list" where
  "split_chars s = map (\<lambda>c. [c]) s"

definition binaryStringToVoxelData :: "string \<Rightarrow> voxels" where
  "binaryStringToVoxelData binaryString =
     map (\<lambda>bit. bit = ''1'') (split_chars binaryString)"

subsection \<open>detectGridSize\<close>

text \<open>
  \<^verbatim>\<open>Math.cbrt\<close> is a floating-point library routine whose result the language leaves
  implementation-approximated; it is a parameter \<open>cbrt\<close> of the model, from the length to
  the number returned. \<^verbatim>\<open>Math.round\<close> rounds to the nearest integer, halves upwards.
  The cube of the rounded root is computed exactly (the integers involved are far below
  \<open>2\<^sup>5\<^sup>3\<close>).
\<close>

definition math_round :: "real \<Rightarrow> int" where
  "math_round x = \<lfloor>x + 1 / 2\<rfloor>"

definition detectGridSize :: "(nat \<Rightarrow> real) \<Rightarrow> string \<Rightarrow> js_error + int" where
  "detectGridSize cbrt binaryString =
     (let len = length binaryString;
          cubeRoot = math_round (cbrt len)
      in if cubeRoot * cubeRoot * cubeRoot = int len then Inr cubeRoot
         else Inl (Error (''Binary string length ('' @ show_nat len
                          @ '') is not a perfect cube'')))"

subsection \<open>JSON payloads\<close>

text \<open>
  A payload is any JavaScript value. Numbers are the finite ones (as rationals),
  \<^verbatim>\<open>NaN\<close> and the two infinities (\<open>JInfinity True\<close> is \<^verbatim>\<open>-Infinity\<close>); an object
  (arrays included) is the list of its properties, the first entry for a name being the
  property's value.
\<close>

datatype jsval =
    JUndefined
  | JNull
  | JBool bool
  | JNum rat
  | JNaN
  | JInfinity bool
  | JStr string
  | JObject "(string \<times> jsval) list"

fun falsy :: "jsval \<Rightarrow> bool" where
  "falsy JUndefined = True"
| "falsy JNull = True"
| "falsy (JBool b) = (\<not> b)"
| "falsy (JNum r) = (r = 0)"
| "falsy JNaN = True"
| "falsy (JInfinity negative) = False"
| "falsy (JStr s) = (s = [])"
| "falsy (JObject props) = False"

text \<open>\<^verbatim>\<open>v || d\<close>\<close>

definition or_else :: "jsval \<Rightarrow> jsval \<Rightarrow> jsval" where
  "or_else v d = (if falsy v then d else v)"

text \<open>
  Reading one of the properties \<^verbatim>\<open>voxelDataString\<close>, \<^verbatim>\<open>difficulty\<close>, \<^verbatim>\<open>maxMoves\<close>
  of a value that is neither \<^verbatim>\<open>null\<close> nor \<^verbatim>\<open>undefined\<close>: a missing property, and any
  of these properties of a primitive, reads as \<^verbatim>\<open>undefined\<close>.
\<close>

fun get_field :: "jsval \<Rightarrow> string \<Rightarrow> jsval" where
  "get_field (JObject props) name =
     (case map_of props name of Some v \<Rightarrow> v | None \<Rightarrow> JUndefined)"
| "get_field v name = JUndefined"

record metadata =
  difficulty :: jsval
  maxMoves :: jsval

record imported =
  voxelData :: voxels
  gridSize :: int
  metadata :: metadata

definition exportToJSON :: "voxels \<Rightarrow> metadata \<Rightarrow> jsval" where
  "exportToJSON vd md =
     (let binaryString = voxelDataToBinaryString vd
      in JObject
           [(''voxelDataString'', JStr binaryString),
            (''difficulty'', or_else (difficulty md) (JNum 5)),
            (''maxMoves'', or_else (maxMoves md) (JNum 50))])"

text \<open>
  \<^verbatim>\<open>importFromJSON\<close> throws a \<^verbatim>\<open>TypeError\<close> when \<^verbatim>\<open>jsonData\<close> is \<^verbatim>\<open>null\<close> or
  \<^verbatim>\<open>undefined\<close> (property read) and when \<^verbatim>\<open>voxelDataString\<close> is not a string
  (\<^verbatim>\<open>.split\<close> is missing), and passes on the error of \<^verbatim>\<open>detectGridSize\<close>.
\<close>

definition importFromJSON :: "(nat \<Rightarrow> real) \<Rightarrow> jsval \<Rightarrow> js_error + imported" where
  "importFromJSON cbrt jsonData =
     (if jsonData = JUndefined \<or> jsonData = JNull then Inl TypeError
      else case get_field jsonData ''voxelDataString'' of
        JStr s \<Rightarrow>
          (let vd = binaryStringToVoxelData s
           in case detectGridSize cbrt s of
                Inl e \<Rightarrow> Inl e
              | Inr n \<Rightarrow>
                  Inr \<lparr>voxelData = vd, gridSize = n,
                       metadata =
                         \<lparr>difficulty = or_else (get_field jsonData ''difficulty'') (JNum 5),
                          maxMoves = or_else (get_field jsonData ''maxMoves'') (JNum 50)\<rparr>\<rparr>)
      | _ \<Rightarrow> Inl TypeError)"

subsection \<open>convertGridSize\<close>

text \<open>
  \<^verbatim>\<open>new Array(k).fill(false)\<close> throws a \<^verbatim>\<open>RangeError\<close> ("Invalid array length") for
  a negative \<open>k\<close> and for \<open>k\<close> above \<open>2\<^sup>3\<^sup>2 - 1 = 4294967295\<close>, the largest length of an array.
  \<^verbatim>\<open>a[i] = v\<close> past the end of an array extends it, the cells in between reading as
  \<^verbatim>\<open>undefined\<close> (falsy); a negative \<open>i\<close> leaves the elements alone.
\<close>

definition array_set :: "voxels \<Rightarrow> int \<Rightarrow> bool \<Rightarrow> voxels" where
  "array_set a i v =
     (if i < 0 then a
      else if nat i < length a then a[nat i := v]
      else a @ replicate (nat i - length a) False @ [v])"

definition convertGridSize :: "voxels \<Rightarrow> int \<Rightarrow> int \<Rightarrow> js_error + voxels" where
  "convertGridSize vd fromGridSize toGridSize =
     (if toGridSize * toGridSize * toGridSize < 0
         \<or> 4294967295 < toGridSize * toGridSize * toGridSize
      then Inl RangeError
      else
        (let newVoxelData = replicate (nat (toGridSize * toGridSize * toGridSize)) False
         in if fromGridSize \<le> toGridSize then
              (let offset = (toGridSize - fromGridSize) div 2
               in Inr (fold (\<lambda>x. fold (\<lambda>y. fold (\<lambda>z a.
                         (let oldIndex = x + y * fromGridSize + z * fromGridSize * fromGridSize;
                              newX = x + offset;
                              newY = y + offset;
                              newZ = z + offset;
                              newIndex = newX + newY * toGridSize + newZ * toGridSize * toGridSize
                          in array_set a newIndex (cell vd oldIndex)))
                         [0..fromGridSize - 1]) [0..fromGridSize - 1]) [0..fromGridSize - 1]
                         newVoxelData))
            else
              (let offset = (fromGridSize - toGridSize) div 2
               in Inr (fold (\<lambda>x. fold (\<lambda>y. fold (\<lambda>z a.
                         (let oldX = x + offset;
                              oldY = y + offset;
                              oldZ = z + offset
                          in if oldX < fromGridSize \<and> oldY < fromGridSize \<and> oldZ < fromGridSize
                             then
                               (let oldIndex = oldX + oldY * fromGridSize
                                               + oldZ * fromGridSize * fromGridSize;
                                    newIndex = x + y * toGridSize + z * toGridSize * toGridSize
                                in array_set a newIndex (cell vd oldIndex))
                             else a))
                         [0..toGridSize - 1]) [0..toGridSize - 1]) [0..toGridSize - 1]
                         newVoxelData))))"

subsection \<open>validateJSONFormat\<close>

text \<open>
  \<^verbatim>\<open>Number.isInteger\<close> holds for finite numbers without a fractional part only. The
  comparisons with \<open>1\<close>, \<open>10\<close> and \<open>999\<close> sit behind \<^verbatim>\<open>!Number.isInteger(...) ||\<close>, so they
  are evaluated on numbers only.
\<close>

definition isInteger :: "jsval \<Rightarrow> bool" where
  "isInteger v = (case v of JNum r \<Rightarrow> rat_of_int \<lfloor>r\<rfloor> = r | _ \<Rightarrow> False)"

fun js_less :: "jsval \<Rightarrow> rat \<Rightarrow> bool" where
  "js_less (JNum r) c = (r < c)"
| "js_less (JInfinity negative) c = negative"
| "js_less v c = False"

fun js_greater :: "jsval \<Rightarrow> rat \<Rightarrow> bool" where
  "js_greater (JNum r) c = (r > c)"
| "js_greater (JInfinity negative) c = (\<not> negative)"
| "js_greater v c = False"

text \<open>\<^verbatim>\<open>/^[01]+$/.test(s)\<close>: a non-empty string of the characters \<open>0\<close> and \<open>1\<close>.\<close>

definition only_01 :: "string \<Rightarrow> bool" where
  "only_01 s = (s \<noteq> [] \<and> list_all (\<lambda>c. c = CHR ''0'' \<or> c = CHR ''1'') s)"

definition validateJSONFormat :: "(nat \<Rightarrow> real) \<Rightarrow> jsval \<Rightarrow> format_result" where
  "validateJSONFormat cbrt jsonData =
     (case jsonData of
        JObject props \<Rightarrow>
          (let v = get_field jsonData ''voxelDataString'';
               errors1 =
                 (case v of
                    JStr s \<Rightarrow>
                      if s = [] then [''Missing or invalid voxelDataString field'']
                      else if \<not> only_01 s then [''voxelDataString must contain only 0 and 1'']
                      else
                        (let len = length s;
                             cubeRoot = math_round (cbrt len)
                         in if cubeRoot * cubeRoot * cubeRoot \<noteq> int len
                            then [''voxelDataString length ('' @ show_nat len
                                    @ '') is not a perfect cube'']
                            else [])
                  | _ \<Rightarrow> [''Missing or invalid voxelDataString field'']);
               d = get_field jsonData ''difficulty'';
               errors2 =
                 (if \<not> isInteger d \<or> js_less d 1 \<or> js_greater d 10
                  then errors1 @ [''difficulty must be an integer from 1 to 10'']
                  else errors1);
               m = get_field jsonData ''maxMoves'';
               errors3 =
                 (if \<not> isInteger m \<or> js_less m 1 \<or> js_greater m 999
                  then errors2 @ [''maxMoves must be an integer from 1 to 999'']
                  else errors2)
           in \<lparr>isValid = (length errors3 = 0), errors = errors3\<rparr>)
      | _ \<Rightarrow> \<lparr>isValid = False, errors = [''JSON must be an object'']\<rparr>)"

section \<open>Notions used in the statements and proofs\<close>

text \<open>The coordinates of a grid of side \<open>n\<close>, and the linear index of a position.\<close>

definition in_cube :: "int \<Rightarrow> pos \<Rightarrow> bool" where
  "in_cube n p = (case p of (x, y, z) \<Rightarrow> 0 \<le> x \<and> x < n \<and> 0 \<le> y \<and> y < n \<and> 0 \<le> z \<and> z < n)"

definition cell_index :: "int \<Rightarrow> pos \<Rightarrow> int" where
  "cell_index n p = (case p of (x, y, z) \<Rightarrow> x + y * n + z * n * n)"

text \<open>
  The invariant of the scan of \<^verbatim>\<open>findConnectedComponents\<close>: the components found so far
  list the visited cells once each, all of them occupied, and none is empty.
\<close>

definition components_inv :: "voxels \<Rightarrow> int \<Rightarrow> pos set \<times> pos list list \<Rightarrow> bool" where
  "components_inv vd n s =
     (case s of (visited, comps) \<Rightarrow>
        distinct (concat comps) \<and> set (concat comps) = visited
        \<and> (\<forall>p \<in> visited. occupied vd n p) \<and> [] \<notin> set comps)"

text \<open>
  A set of positions that holds every occupied neighbour (under a connectivity type) of
  each of its members.
\<close>

definition closed_under :: "voxels \<Rightarrow> int \<Rightarrow> string \<Rightarrow> pos set \<Rightarrow> bool" where
  "closed_under vd n ctype S =
     (\<forall>(x, y, z) \<in> S. \<forall>c \<in> set (getNeighbors x y z ctype). occupied vd n c \<longrightarrow> c \<in> S)"

text \<open>
  The positions in the order of the three nested loops over a grid, and a position
  moved by the same offset on every axis.
\<close>

definition cube :: "int \<Rightarrow> pos list" where
  "cube n = List.product [0..n - 1] (List.product [0..n - 1] [0..n - 1])"

definition shift :: "int \<Rightarrow> pos \<Rightarrow> pos" where
  "shift d p = (case p of (x, y, z) \<Rightarrow> (x + d, y + d, z + d))"






section \<open>Binary string round trip\<close>

lemma voxelDataToBinaryString_map:
  "voxelDataToBinaryString vs = map (\<lambda>v. if v then CHR ''1'' else CHR ''0'') vs"
  by (induction vs) (simp_all add: voxelDataToBinaryString_def)

lemma length_voxelDataToBinaryString:
  "length (voxelDataToBinaryString vs) = length vs"
  by (simp add: voxelDataToBinaryString_map)

lemma binaryStringToVoxelData_map:
  "binaryStringToVoxelData s = map (\<lambda>c. c = CHR ''1'') s"
  by (simp add: binaryStringToVoxelData_def split_chars_def)

lemma decode_encode: "binaryStringToVoxelData (voxelDataToBinaryString grid) = grid"
proof -
  have "map (\<lambda>c. c = CHR ''1'') (map (\<lambda>v. if v then CHR ''1'' else CHR ''0'') grid) = grid"
    by (induction grid) simp_all
  then show ?thesis
    by (simp add: binaryStringToVoxelData_map voxelDataToBinaryString_map)
qed

text \<open>
  C5. Decoding the binary string of a grid gives the grid back cell for cell; the
  string has one character per cell, in index order, \<open>1\<close> for an occupied cell and
  \<open>0\<close> otherwise, so its length is the length of the array.
\<close>

theorem binary_string_roundtrip:
  "binaryStringToVoxelData (voxelDataToBinaryString grid) = grid
   \<and> length (voxelDataToBinaryString grid) = length grid
   \<and> (\<forall>i<length grid.
        voxelDataToBinaryString grid ! i = (if grid ! i then CHR ''1'' else CHR ''0''))"
  by (simp add: decode_encode length_voxelDataToBinaryString)
     (simp add: voxelDataToBinaryString_map)

theorem binary_string_roundtrip_witness:
  "binaryStringToVoxelData (voxelDataToBinaryString [True, False, True]) = [True, False, True]
   \<and> voxelDataToBinaryString [True, False, True] = ''101''
   \<and> voxelDataToBinaryString [True, False, True] ! 1 = CHR ''0''"
  using binary_string_roundtrip [of "[True, False, True]"]
  by (simp add: voxelDataToBinaryString_def)

section \<open>Grid size detection and payloads\<close>

lemma math_round_near: "\<bar>c - real_of_int k\<bar> < 1 / 2 \<Longrightarrow> math_round c = k"
  unfolding math_round_def by linarith

lemma cube_not_3: "(k::int) * k * k \<noteq> 3"
proof (cases "k \<le> 1")
  case True
  show ?thesis
  proof (cases "k \<le> 0")
    case True
    then have "k * k * k \<le> 0"
      by (simp add: mult_nonneg_nonpos zero_le_square)
    then show ?thesis by simp
  next
    case False
    with \<open>k \<le> 1\<close> have "k = 1" by simp
    then show ?thesis by simp
  qed
next
  case False
  then have k: "2 \<le> k" by simp
  then have "2 * 2 \<le> k * k" by (intro mult_mono) simp_all
  then have "2 * 2 * 2 \<le> k * k * k" using k by (intro mult_mono) simp_all
  then show ?thesis by simp
qed

lemma detectGridSize_cube:
  assumes "length s = N * N * N" "\<bar>cbrt (length s) - real N\<bar> < 1 / 2"
  shows "detectGridSize cbrt s = Inr (int N)"
proof -
  have "math_round (cbrt (length s)) = int N"
    using assms(2) by (intro math_round_near) simp
  then show ?thesis
    using assms(1) by (simp add: detectGridSize_def Let_def)
qed

lemma importFromJSON_string:
  assumes "get_field jsonData ''voxelDataString'' = JStr s"
  shows "importFromJSON cbrt jsonData =
           (case detectGridSize cbrt s of
              Inl e \<Rightarrow> Inl e
            | Inr n \<Rightarrow>
                Inr \<lparr>voxelData = binaryStringToVoxelData s, gridSize = n,
                     metadata =
                       \<lparr>difficulty = or_else (get_field jsonData ''difficulty'') (JNum 5),
                        maxMoves = or_else (get_field jsonData ''maxMoves'') (JNum 50)\<rparr>\<rparr>)"
proof -
  have "jsonData \<noteq> JUndefined" "jsonData \<noteq> JNull"
    using assms by auto
  then show ?thesis
    using assms by (simp add: importFromJSON_def Let_def)
qed

lemma importFromJSON_Inr:
  assumes "importFromJSON cbrt jsonData = Inr r"
  shows "\<exists>s. get_field jsonData ''voxelDataString'' = JStr s
           \<and> detectGridSize cbrt s = Inr (gridSize r)
           \<and> voxelData r = binaryStringToVoxelData s
           \<and> metadata r =
               \<lparr>difficulty = or_else (get_field jsonData ''difficulty'') (JNum 5),
                maxMoves = or_else (get_field jsonData ''maxMoves'') (JNum 50)\<rparr>"
  using assms
  by (auto simp: importFromJSON_def Let_def split: if_splits jsval.splits sum.splits)

text \<open>
  C7. For a payload whose \<open>difficulty\<close> and \<open>maxMoves\<close> are missing or falsy (a present
  \<open>0\<close> included), every result of \<open>importFromJSON\<close> carries the metadata 5 and 50, and
  there is a result whenever \<open>voxelDataString\<close> is a string whose size is detected. In
  particular the export of a full \<open>3\<^sup>3\<close> grid with difficulty 0 and maxMoves 0 decodes to
  5 and 50 (the cube root of 27 being rounded to 3).
\<close>

theorem importFromJSON_defaults:
  "(falsy (get_field jsonData ''difficulty'') \<and> falsy (get_field jsonData ''maxMoves'')
      \<longrightarrow> (\<forall>r. importFromJSON cbrt jsonData = Inr r
                \<longrightarrow> metadata r = \<lparr>difficulty = JNum 5, maxMoves = JNum 50\<rparr>)
          \<and> (\<forall>s k. get_field jsonData ''voxelDataString'' = JStr s
                  \<and> detectGridSize cbrt s = Inr k
                \<longrightarrow> importFromJSON cbrt jsonData
                    = Inr \<lparr>voxelData = binaryStringToVoxelData s, gridSize = k,
                           metadata = \<lparr>difficulty = JNum 5, maxMoves = JNum 50\<rparr>\<rparr>))
   \<and> (\<bar>cbrt 27 - 3\<bar> < 1 / 2
      \<longrightarrow> importFromJSON cbrt
            (exportToJSON (replicate 27 True) \<lparr>difficulty = JNum 0, maxMoves = JNum 0\<rparr>)
          = Inr \<lparr>voxelData = replicate 27 True, gridSize = 3,
                 metadata = \<lparr>difficulty = JNum 5, maxMoves = JNum 50\<rparr>\<rparr>)"
proof (intro conjI impI allI)
  fix r
  assume f: "falsy (get_field jsonData ''difficulty'') \<and> falsy (get_field jsonData ''maxMoves'')"
    and r: "importFromJSON cbrt jsonData = Inr r"
  from importFromJSON_Inr[OF r] f
  show "metadata r = \<lparr>difficulty = JNum 5, maxMoves = JNum 50\<rparr>"
    by (auto simp: or_else_def)
next
  fix s k
  assume f: "falsy (get_field jsonData ''difficulty'') \<and> falsy (get_field jsonData ''maxMoves'')"
    and s: "get_field jsonData ''voxelDataString'' = JStr s \<and> detectGridSize cbrt s = Inr k"
  then show "importFromJSON cbrt jsonData
      = Inr \<lparr>voxelData = binaryStringToVoxelData s, gridSize = k,
             metadata = \<lparr>difficulty = JNum 5, maxMoves = JNum 50\<rparr>\<rparr>"
    by (simp add: importFromJSON_string or_else_def)
next
  assume c: "\<bar>cbrt 27 - 3\<bar> < 1 / 2"
  let ?s = "voxelDataToBinaryString (replicate 27 True)"
  have len: "length ?s = 3 * 3 * 3"
    by (simp add: length_voxelDataToBinaryString)
  have "detectGridSize cbrt ?s = Inr (int 3)"
    by (rule detectGridSize_cube[OF len]) (use c in \<open>simp add: length_voxelDataToBinaryString\<close>)
  then show "importFromJSON cbrt
      (exportToJSON (replicate 27 True) \<lparr>difficulty = JNum 0, maxMoves = JNum 0\<rparr>)
    = Inr \<lparr>voxelData = replicate 27 True, gridSize = 3,
           metadata = \<lparr>difficulty = JNum 5, maxMoves = JNum 50\<rparr>\<rparr>"
    by (simp add: importFromJSON_def exportToJSON_def Let_def or_else_def decode_encode)
qed

theorem importFromJSON_defaults_witness:
  "importFromJSON (\<lambda>len. 2)
     (JObject [(''voxelDataString'', JStr ''10000001''), (''difficulty'', JNum 0)])
   = Inr \<lparr>voxelData = [True, False, False, False, False, False, False, True], gridSize = 2,
          metadata = \<lparr>difficulty = JNum 5, maxMoves = JNum 50\<rparr>\<rparr>
   \<and> importFromJSON (\<lambda>len. 3001 / 1000)
       (exportToJSON (replicate 27 True) \<lparr>difficulty = JNum 0, maxMoves = JNum 0\<rparr>)
     = Inr \<lparr>voxelData = replicate 27 True, gridSize = 3,
            metadata = \<lparr>difficulty = JNum 5, maxMoves = JNum 50\<rparr>\<rparr>"
  using importFromJSON_defaults
    [of "JObject [(''voxelDataString'', JStr ''10000001''), (''difficulty'', JNum 0)]"
        "\<lambda>len. 2"]
    importFromJSON_defaults [of JNull "\<lambda>len. 3001 / 1000"]
  by (simp add: detectGridSize_def math_round_def binaryStringToVoxelData_map)

text \<open>
  C9. On the empty string \<open>detectGridSize\<close> returns 0 and does not throw (the cube root
  of 0 rounds to 0 and \<open>0\<^sup>3 = 0\<close>), so \<open>importFromJSON\<close> on a payload whose
  \<open>voxelDataString\<close> is the empty string returns grid size 0, which is not positive, and
  an empty cell array.
\<close>

theorem detectGridSize_empty_string:
  "\<bar>cbrt 0\<bar> < 1 / 2 \<longrightarrow>
     detectGridSize cbrt '''' = Inr 0
     \<and> (get_field jsonData ''voxelDataString'' = JStr '''' \<longrightarrow>
          (\<exists>r. importFromJSON cbrt jsonData = Inr r \<and> gridSize r = 0 \<and> voxelData r = []
                \<and> \<not> 0 < gridSize r))"
proof (intro impI conjI)
  assume c: "\<bar>cbrt 0\<bar> < 1 / 2"
  have "math_round (cbrt 0) = 0"
    using c by (intro math_round_near) simp
  then show d: "detectGridSize cbrt '''' = Inr 0"
    by (simp add: detectGridSize_def)
  assume "get_field jsonData ''voxelDataString'' = JStr ''''"
  then show "\<exists>r. importFromJSON cbrt jsonData = Inr r \<and> gridSize r = 0 \<and> voxelData r = []
      \<and> \<not> 0 < gridSize r"
    using d by (simp add: importFromJSON_string binaryStringToVoxelData_map)
qed

theorem detectGridSize_empty_string_witness:
  "detectGridSize (\<lambda>len. 0) '''' = Inr 0
   \<and> importFromJSON (\<lambda>len. 0) (JObject [(''voxelDataString'', JStr '''')])
       = Inr \<lparr>voxelData = [], gridSize = 0,
              metadata = \<lparr>difficulty = JNum 5, maxMoves = JNum 50\<rparr>\<rparr>"
  using detectGridSize_empty_string
    [of "\<lambda>len. 0" "JObject [(''voxelDataString'', JStr '''')]"]
  by (auto simp: importFromJSON_def or_else_def Let_def)

lemma validateJSONFormat_object:
  "errors (validateJSONFormat cbrt (JObject props)) =
     (case get_field (JObject props) ''voxelDataString'' of
        JStr s \<Rightarrow>
          if s = [] then [''Missing or invalid voxelDataString field'']
          else if \<not> only_01 s then [''voxelDataString must contain only 0 and 1'']
          else if math_round (cbrt (length s)) * math_round (cbrt (length s))
                    * math_round (cbrt (length s)) \<noteq> int (length s)
               then [''voxelDataString length ('' @ show_nat (length s)
                       @ '') is not a perfect cube'']
               else []
      | _ \<Rightarrow> [''Missing or invalid voxelDataString field''])
     @ (if \<not> isInteger (get_field (JObject props) ''difficulty'')
           \<or> js_less (get_field (JObject props) ''difficulty'') 1
           \<or> js_greater (get_field (JObject props) ''difficulty'') 10
        then [''difficulty must be an integer from 1 to 10''] else [])
     @ (if \<not> isInteger (get_field (JObject props) ''maxMoves'')
           \<or> js_less (get_field (JObject props) ''maxMoves'') 1
           \<or> js_greater (get_field (JObject props) ''maxMoves'') 999
        then [''maxMoves must be an integer from 1 to 999''] else [])"
  unfolding validateJSONFormat_def Let_def
  by (simp split: jsval.split)

lemma validateJSONFormat_isValid:
  "isValid (validateJSONFormat cbrt jsonData) = (errors (validateJSONFormat cbrt jsonData) = [])"
  by (simp add: validateJSONFormat_def Let_def split: jsval.split)

text \<open>
  C8. The payload with \<open>voxelDataString = "111"\<close>, difficulty 5 and maxMoves 50 is invalid
  with exactly one error, the perfect-cube failure for length 3. For every object
  payload whose \<open>voxelDataString\<close> is missing, not a string or empty, the error list is the
  \<open>voxelDataString\<close> error followed by the error of the difficulty check and the error of
  the maxMoves check, each present exactly when its own check fails.
\<close>

theorem validateJSONFormat_accumulates:
  "validateJSONFormat cbrt
     (JObject [(''voxelDataString'', JStr ''111''), (''difficulty'', JNum 5),
               (''maxMoves'', JNum 50)])
     = \<lparr>isValid = False, errors = [''voxelDataString length (3) is not a perfect cube'']\<rparr>
   \<and> ((\<forall>s. get_field (JObject props) ''voxelDataString'' = JStr s \<longrightarrow> s = '''') \<longrightarrow>
        \<not> isValid (validateJSONFormat cbrt (JObject props))
        \<and> errors (validateJSONFormat cbrt (JObject props)) =
            [''Missing or invalid voxelDataString field'']
            @ (if \<not> isInteger (get_field (JObject props) ''difficulty'')
                  \<or> js_less (get_field (JObject props) ''difficulty'') 1
                  \<or> js_greater (get_field (JObject props) ''difficulty'') 10
               then [''difficulty must be an integer from 1 to 10''] else [])
            @ (if \<not> isInteger (get_field (JObject props) ''maxMoves'')
                  \<or> js_less (get_field (JObject props) ''maxMoves'') 1
                  \<or> js_greater (get_field (JObject props) ''maxMoves'') 999
               then [''maxMoves must be an integer from 1 to 999''] else []))"
proof (intro conjI impI)
  show "validateJSONFormat cbrt
     (JObject [(''voxelDataString'', JStr ''111''), (''difficulty'', JNum 5),
               (''maxMoves'', JNum 50)])
     = \<lparr>isValid = False, errors = [''voxelDataString length (3) is not a perfect cube'']\<rparr>"
    by (simp add: validateJSONFormat_def only_01_def isInteger_def cube_not_3 show_nat.simps)
next
  assume a: "\<forall>s. get_field (JObject props) ''voxelDataString'' = JStr s \<longrightarrow> s = ''''"
  have v: "(case get_field (JObject props) ''voxelDataString'' of
        JStr s \<Rightarrow>
          if s = [] then [''Missing or invalid voxelDataString field'']
          else if \<not> only_01 s then [''voxelDataString must contain only 0 and 1'']
          else if math_round (cbrt (length s)) * math_round (cbrt (length s))
                    * math_round (cbrt (length s)) \<noteq> int (length s)
               then [''voxelDataString length ('' @ show_nat (length s)
                       @ '') is not a perfect cube'']
               else []
      | _ \<Rightarrow> [''Missing or invalid voxelDataString field''])
      = [''Missing or invalid voxelDataString field'']"
    using a by (cases "get_field (JObject props) ''voxelDataString''") simp_all
  show e: "errors (validateJSONFormat cbrt (JObject props)) =
            [''Missing or invalid voxelDataString field'']
            @ (if \<not> isInteger (get_field (JObject props) ''difficulty'')
                  \<or> js_less (get_field (JObject props) ''difficulty'') 1
                  \<or> js_greater (get_field (JObject props) ''difficulty'') 10
               then [''difficulty must be an integer from 1 to 10''] else [])
            @ (if \<not> isInteger (get_field (JObject props) ''maxMoves'')
                  \<or> js_less (get_field (JObject props) ''maxMoves'') 1
                  \<or> js_greater (get_field (JObject props) ''maxMoves'') 999
               then [''maxMoves must be an integer from 1 to 999''] else [])"
    unfolding validateJSONFormat_object v ..
  show "\<not> isValid (validateJSONFormat cbrt (JObject props))"
    unfolding validateJSONFormat_isValid e by simp
qed

theorem validateJSONFormat_accumulates_witness:
  "validateJSONFormat (\<lambda>len. 1442 / 1000)
     (JObject [(''voxelDataString'', JStr ''111''), (''difficulty'', JNum 5),
               (''maxMoves'', JNum 50)])
     = \<lparr>isValid = False, errors = [''voxelDataString length (3) is not a perfect cube'']\<rparr>
   \<and> validateJSONFormat (\<lambda>len. 1442 / 1000)
       (JObject [(''voxelDataString'', JNum 7), (''difficulty'', JNum 11)])
     = \<lparr>isValid = False,
        errors = [''Missing or invalid voxelDataString field'',
                  ''difficulty must be an integer from 1 to 10'',
                  ''maxMoves must be an integer from 1 to 999'']\<rparr>"
  using validateJSONFormat_accumulates
    [of "\<lambda>len. 1442 / 1000" "[(''voxelDataString'', JNum 7), (''difficulty'', JNum 11)]"]
  by (simp add: validateJSONFormat_def isInteger_def)

section \<open>Unknown connectivity types\<close>

lemma getNeighbors_unknown:
  "ctype \<noteq> ''edge'' \<Longrightarrow> ctype \<noteq> ''corner'' \<Longrightarrow>
     getNeighbors x y z ctype = getNeighbors x y z ''face''"
  by (simp add: getNeighbors_def)

lemma isShapeConnected_while_unknown:
  "ctype \<noteq> ''edge'' \<Longrightarrow> ctype \<noteq> ''corner'' \<Longrightarrow>
     isShapeConnected_while vd n ctype visited queue
       = isShapeConnected_while vd n ''face'' visited queue"
proof (induction vd n ctype visited queue rule: isShapeConnected_while.induct)
  case (1 vd n ctype visited)
  show ?case by simp
next
  case (2 vd n ctype visited x y z rest)
  obtain v' q' where f: "fold (visit vd n) (getNeighbors x y z ctype) (visited, rest) = (v', q')"
    by (cases "fold (visit vd n) (getNeighbors x y z ctype) (visited, rest)")
  have "isShapeConnected_while vd n ctype v' q' = isShapeConnected_while vd n ''face'' v' q'"
    using "2.IH"[OF f[symmetric]] "2.prems" by simp
  then show ?case
    using f getNeighbors_unknown[OF "2.prems", of x y z] by simp
qed

text \<open>
  C10. For every connectivity type other than the strings \<open>edge\<close> and \<open>corner\<close>,
  \<open>getNeighbors\<close> yields the six face neighbours only and \<open>isShapeConnected\<close> answers as it
  does for \<open>face\<close>.
\<close>

theorem isShapeConnected_unknown_type:
  "ctype \<noteq> ''edge'' \<and> ctype \<noteq> ''corner'' \<longrightarrow>
     getNeighbors x y z ctype = getNeighbors x y z ''face''
     \<and> length (getNeighbors x y z ctype) = 6
     \<and> isShapeConnected data n ctype = isShapeConnected data n ''face''"
proof (intro impI conjI)
  assume a: "ctype \<noteq> ''edge'' \<and> ctype \<noteq> ''corner''"
  then show "getNeighbors x y z ctype = getNeighbors x y z ''face''"
    by (simp add: getNeighbors_def)
  from a show "length (getNeighbors x y z ctype) = 6"
    by (simp add: getNeighbors_def faceDirections_def)
  from a have w: "isShapeConnected_while vd n ctype v q = isShapeConnected_while vd n ''face'' v q"
    for vd v q
    by (intro isShapeConnected_while_unknown) simp_all
  show "isShapeConnected data n ctype = isShapeConnected data n ''face''"
    unfolding isShapeConnected_def w by (rule refl)
qed

theorem isShapeConnected_unknown_type_witness:
  "\<not> isShapeConnected (Some [True, False, False, True, False, False, False, False]) 2 ''Edge''
   \<and> isShapeConnected (Some [True, False, False, True, False, False, False, False]) 2 ''edge''"
proof -
  let ?G = "[True, False, False, True, False, False, False, False]"
  have face: "\<not> isShapeConnected (Some ?G) 2 ''face''"
    by code_simp
  have edge: "isShapeConnected (Some ?G) 2 ''edge''"
    by code_simp
  have "''Edge'' \<noteq> ''edge'' \<and> ''Edge'' \<noteq> ''corner''"
    by simp
  with isShapeConnected_unknown_type [of "''Edge''" 0 0 0 "Some ?G" 2]
  have "isShapeConnected (Some ?G) 2 ''Edge'' = isShapeConnected (Some ?G) 2 ''face''"
    by blast
  with face edge show ?thesis by simp
qed

section \<open>Counting set cells\<close>

lemma filter_empty_iff: "(length (filter (\<lambda>v. v) vd) = 0) = (\<forall>i<length vd. \<not> vd ! i)"
  by (auto simp: filter_empty_conv in_set_conv_nth)

section \<open>Linear indices and coordinates\<close>

lemma linear_bounds:
  assumes "in_cube n p"
  shows "0 \<le> cell_index n p" and "cell_index n p < n * n * n"
proof -
  obtain x y z where p: "p = (x, y, z)" by (cases p) auto
  from assms p have b: "0 \<le> x" "x \<le> n - 1" "0 \<le> y" "y \<le> n - 1" "0 \<le> z" "z \<le> n - 1" "0 \<le> n"
    by (auto simp: in_cube_def)
  have "0 \<le> y * n" "0 \<le> z * n * n"
    using b by simp_all
  then show "0 \<le> cell_index n p"
    using b p by (simp add: cell_index_def)
  have "y * n \<le> (n - 1) * n"
    using b by (intro mult_right_mono) simp_all
  moreover have "z * (n * n) \<le> (n - 1) * (n * n)"
    using b by (intro mult_right_mono) simp_all
  moreover have "(n - 1) + (n - 1) * n + (n - 1) * (n * n) = n * n * n - 1"
    by (simp add: algebra_simps)
  ultimately have "x + y * n + z * (n * n) < n * n * n"
    using b by linarith
  then show "cell_index n p < n * n * n"
    by (simp add: cell_index_def p mult.assoc)
qed

lemma position_of_linear:
  assumes "in_cube n p"
  shows "position_of n (nat (cell_index n p)) = p"
proof -
  obtain x y z where p: "p = (x, y, z)" by (cases p) auto
  from assms p have b: "0 \<le> x" "x < n" "0 \<le> y" "y < n" "0 \<le> z" "z < n" "0 < n"
    by (auto simp: in_cube_def)
  have nn: "0 \<le> cell_index n p" using assms by (rule linear_bounds)
  have l: "cell_index n p = x + n * (y + n * z)"
    by (simp add: cell_index_def p algebra_simps)
  have m: "cell_index n p mod n = x"
    unfolding l using b by simp
  have d: "cell_index n p div n = y + n * z"
    unfolding l using b by simp
  have dm: "(cell_index n p div n) mod n = y"
    unfolding d using b by simp
  have "cell_index n p div (n * n) = (cell_index n p div n) div n"
    using b by (simp add: zdiv_zmult2_eq)
  also have "\<dots> = z"
    unfolding d using b by simp
  finally have dd: "cell_index n p div (n * n) = z" .
  have "int (nat (cell_index n p)) = cell_index n p"
    using nn by simp
  then show ?thesis
    by (simp only: position_of_def m dm dd) (simp add: p)
qed

lemma linear_position_of:
  assumes "0 < n" "i < nat (n * n * n)"
  shows "in_cube n (position_of n i)" and "cell_index n (position_of n i) = int i"
proof -
  let ?i = "int i"
  have i: "0 \<le> ?i" "?i < n * (n * n)"
    using assms by (simp_all add: mult.assoc)
  have z0: "0 \<le> ?i div (n * n)"
    using assms by (simp add: pos_imp_zdiv_nonneg_iff)
  have nn: "0 < n * n"
    using assms(1) by simp
  have "?i div (n * n) < n"
  proof (rule ccontr)
    assume "\<not> ?i div (n * n) < n"
    then have "n \<le> ?i div (n * n)" by simp
    then have "(n * n) * n \<le> (n * n) * (?i div (n * n))"
      using nn by (intro mult_left_mono) simp_all
    moreover have "?i = (n * n) * (?i div (n * n)) + ?i mod (n * n)"
      by simp
    moreover have "0 \<le> ?i mod (n * n)"
      using nn by simp
    ultimately have "n * n * n \<le> ?i"
      by linarith
    with i show False by (simp add: mult.assoc)
  qed
  then show "in_cube n (position_of n i)"
    using assms(1) z0 by (simp add: in_cube_def position_of_def)
  have "?i = ?i mod n + n * (?i div n)"
    by simp
  also have "?i div n = (?i div n) mod n + n * ((?i div n) div n)"
    by simp
  also have "(?i div n) div n = ?i div (n * n)"
    using assms(1) by (simp add: zdiv_zmult2_eq)
  finally show "cell_index n (position_of n i) = int i"
    by (simp add: cell_index_def position_of_def algebra_simps)
qed

lemma linear_inj:
  assumes "in_cube n p" "in_cube n q" "cell_index n p = cell_index n q"
  shows "p = q"
proof -
  from assms(3) have "position_of n (nat (cell_index n p)) = position_of n (nat (cell_index n q))"
    by (rule arg_cong)
  then show ?thesis
    by (simp only: position_of_linear[OF assms(1)] position_of_linear[OF assms(2)])
qed

lemma occupied_iff: "occupied vd n p = (in_cube n p \<and> cell vd (cell_index n p))"
  by (cases p) (auto simp: occupied_def in_cube_def cell_index_def)

section \<open>The scan of the grid\<close>

lemma scan_row:
  "concat (map (\<lambda>z. if P z then [f z] else []) zs) = map f (filter P zs)"
  by (induction zs) simp_all

lemma scan_plane:
  "concat (map (\<lambda>y. map (f y) (filter (P y) zs)) ys)
     = map (\<lambda>(y, z). f y z) (filter (\<lambda>(y, z). P y z) (List.product ys zs))"
  by (induction ys) (simp_all add: filter_map comp_def)

lemma voxelPositions_filter:
  "voxelPositions vd n
     = filter (\<lambda>p. cell vd (cell_index n p))
         (List.product [0..n - 1] (List.product [0..n - 1] [0..n - 1]))"
proof -
  have "voxelPositions vd n
      = concat (map (\<lambda>x. map (\<lambda>(y, z). (x, y, z))
          (filter (\<lambda>(y, z). cell vd (x + y * n + z * n * n))
             (List.product [0..n - 1] [0..n - 1]))) [0..n - 1])"
    unfolding voxelPositions_def scan_row scan_plane ..
  also have "\<dots> = map (\<lambda>(x, y, z). (x, y, z))
      (filter (\<lambda>(x, y, z). cell vd (x + y * n + z * n * n))
         (List.product [0..n - 1] (List.product [0..n - 1] [0..n - 1])))"
    using scan_plane[of "\<lambda>x (y, z). (x, y, z)" "\<lambda>x (y, z). cell vd (x + y * n + z * n * n)"
        "List.product [0..n - 1] [0..n - 1]" "[0..n - 1]"]
    by (simp add: case_prod_unfold)
  also have "\<dots> = filter (\<lambda>p. cell vd (cell_index n p))
         (List.product [0..n - 1] (List.product [0..n - 1] [0..n - 1]))"
    by (simp add: cell_index_def case_prod_unfold)
  finally show ?thesis .
qed

lemma distinct_voxelPositions: "distinct (voxelPositions vd n)"
  unfolding voxelPositions_filter
  by (intro distinct_filter distinct_product) simp_all

lemma length_voxelPositions: "length (voxelPositions vd n) = card {p. occupied vd n p}"
  using distinct_card[OF distinct_voxelPositions, of vd n]
  by (simp add: set_voxelPositions)

lemma voxelPositions_empty_iff: "(voxelPositions vd n = []) = (\<forall>p. \<not> occupied vd n p)"
  using set_voxelPositions[of vd n] by (metis (no_types, lifting) Collect_empty_eq set_empty)

section \<open>Components\<close>

lemma findConnectedComponents_while_invariant:
  assumes "findConnectedComponents_while vd n visited queue component = (visited', component')"
    and "distinct (component @ queue)"
    and "visited = B \<union> set component \<union> set queue"
    and "B \<inter> (set component \<union> set queue) = {}"
    and "\<forall>p \<in> set component \<union> set queue. occupied vd n p"
  shows "distinct component' \<and> visited' = B \<union> set component' \<and> B \<inter> set component' = {}
         \<and> (\<forall>p \<in> set component'. occupied vd n p)
         \<and> set component \<union> set queue \<subseteq> set component'"
  using assms
proof (induction vd n visited queue component rule: findConnectedComponents_while.induct)
  case (1 vd n visited component)
  then show ?case by auto
next
  case (2 vd n visited current rest component)
  let ?nbs = "map (step_from current) directions"
  from fold_visit_result[of vd n ?nbs visited rest] obtain new where
    new: "fold (visit vd n) ?nbs (visited, rest) = (visited \<union> set new, rest @ new)"
      "distinct new" "set new = {p \<in> set ?nbs. occupied vd n p} - visited"
    by blast
  have run: "findConnectedComponents_while vd n (visited \<union> set new) (rest @ new)
               (component @ [current]) = (visited', component')"
    using "2.prems"(1) new(1) by simp
  have d: "distinct ((component @ [current]) @ rest @ new)"
    using "2.prems"(2,3) new(2,3) by auto
  have v: "visited \<union> set new = B \<union> set (component @ [current]) \<union> set (rest @ new)"
    using "2.prems"(3) by auto
  have b: "B \<inter> (set (component @ [current]) \<union> set (rest @ new)) = {}"
    using "2.prems"(3,4) new(3) by auto
  have o: "\<forall>p \<in> set (component @ [current]) \<union> set (rest @ new). occupied vd n p"
    using "2.prems"(5) new(3) by auto
  from "2.IH"[OF new(1)[symmetric] run d v b o]
  show ?case by auto
qed

lemma seed_component_inv:
  assumes "components_inv vd n s" "occupied vd n p"
  shows "components_inv vd n (seed_component vd n p s)
         \<and> insert p (fst s) \<subseteq> fst (seed_component vd n p s)"
proof -
  obtain visited comps where s: "s = (visited, comps)" by (cases s)
  from assms(1) s have inv: "distinct (concat comps)" "set (concat comps) = visited"
    "\<forall>p \<in> visited. occupied vd n p" "[] \<notin> set comps"
    by (auto simp: components_inv_def)
  show ?thesis
  proof (cases "p \<in> visited")
    case True
    then show ?thesis
      using assms(1) s by (simp add: seed_component_def)
  next
    case False
    obtain visited' component where
      run: "findConnectedComponents_while vd n (insert p visited) [p] [] = (visited', component)"
      by (cases "findConnectedComponents_while vd n (insert p visited) [p] []")
    have r: "distinct component \<and> visited' = visited \<union> set component
        \<and> visited \<inter> set component = {} \<and> (\<forall>p \<in> set component. occupied vd n p)
        \<and> set [] \<union> set [p] \<subseteq> set component"
      by (rule findConnectedComponents_while_invariant[OF run])
         (use False assms(2) in auto)
    have res: "seed_component vd n p s = (visited', comps @ [component])"
      using False run s by (simp add: seed_component_def)
    have ne: "component \<noteq> []" using r by auto
    have "components_inv vd n (visited', comps @ [component])"
      unfolding components_inv_def using inv r ne by auto
    moreover have "insert p (fst s) \<subseteq> visited'"
      using r s by auto
    ultimately show ?thesis
      unfolding res by simp
  qed
qed

lemma fold_seed_component_inv:
  assumes "components_inv vd n s" "\<forall>p \<in> set ps. occupied vd n p"
  shows "components_inv vd n (fold (seed_component vd n) ps s)
         \<and> set ps \<union> fst s \<subseteq> fst (fold (seed_component vd n) ps s)"
  using assms
proof (induction ps arbitrary: s)
  case Nil
  then show ?case by simp
next
  case (Cons p ps)
  have o: "occupied vd n p" using Cons.prems(2) by simp
  from seed_component_inv[OF Cons.prems(1) o]
  have step: "components_inv vd n (seed_component vd n p s)"
    "insert p (fst s) \<subseteq> fst (seed_component vd n p s)"
    by simp_all
  have rest: "\<forall>p \<in> set ps. occupied vd n p"
    using Cons.prems(2) by simp
  from Cons.IH[OF step(1) rest] step(2) show ?case by auto
qed

lemma findConnectedComponents_Some:
  "findConnectedComponents (Some vd) n
     = (if n \<le> 0 then [] else snd (fold (seed_component vd n) (voxelPositions vd n) ({}, [])))"
  by (simp add: findConnectedComponents_def Let_def)

lemma not_occupied_nonpositive: "n \<le> 0 \<Longrightarrow> \<not> occupied vd n p"
  by (cases p) (auto simp: occupied_def)

lemma findConnectedComponents_sound:
  "distinct (concat (findConnectedComponents (Some vd) n))"
  "set (concat (findConnectedComponents (Some vd) n)) = {p. occupied vd n p}"
  "[] \<notin> set (findConnectedComponents (Some vd) n)"
proof -
  let ?r = "fold (seed_component vd n) (voxelPositions vd n) ({}, [])"
  have i0: "components_inv vd n ({}, [])"
    by (simp add: components_inv_def)
  have o0: "\<forall>p \<in> set (voxelPositions vd n). occupied vd n p"
    by (simp add: set_voxelPositions)
  note r = fold_seed_component_inv[OF i0 o0]
  obtain visited comps where vc: "?r = (visited, comps)" by (cases ?r)
  from r vc have inv: "distinct (concat comps)" "set (concat comps) = visited"
    "\<forall>p \<in> visited. occupied vd n p" "[] \<notin> set comps" "{p. occupied vd n p} \<subseteq> visited"
    by (auto simp: components_inv_def set_voxelPositions)
  have eq: "findConnectedComponents (Some vd) n = (if n \<le> 0 then [] else comps)"
    by (simp add: findConnectedComponents_Some vc)
  show "distinct (concat (findConnectedComponents (Some vd) n))"
    using inv(1) by (simp add: eq)
  show "[] \<notin> set (findConnectedComponents (Some vd) n)"
    using inv(4) by (simp add: eq)
  show "set (concat (findConnectedComponents (Some vd) n)) = {p. occupied vd n p}"
  proof (cases "n \<le> 0")
    case True
    then show ?thesis by (simp add: eq not_occupied_nonpositive)
  next
    case False
    then show ?thesis using inv(2,3,5) by (auto simp: eq)
  qed
qed

lemma concat_unique_index:
  assumes "distinct (concat xss)" "i < length xss" "j < length xss"
    "p \<in> set (xss ! i)" "p \<in> set (xss ! j)"
  shows "i = j"
proof (rule ccontr)
  assume ne: "i \<noteq> j"
  from assms(1) have d: "distinct (removeAll [] xss)"
    and disj: "\<And>ys zs. ys \<in> set xss \<Longrightarrow> zs \<in> set xss \<Longrightarrow> ys \<noteq> zs \<Longrightarrow> set ys \<inter> set zs = {}"
    by (auto simp: distinct_concat_iff)
  have mem: "xss ! i \<in> set xss" "xss ! j \<in> set xss"
    using assms(2,3) by simp_all
  have same: "xss ! i = xss ! j"
    using disj[OF mem] assms(4,5) by auto
  have nonempty: "xss ! i \<noteq> []" using assms(4) by auto
  show False
    using d ne same nonempty assms(2,3)
  proof (induction xss arbitrary: i j)
    case Nil
    then show ?case by simp
  next
    case (Cons xs xss)
    show ?case
    proof (cases "xs = []")
      case True
      with Cons.prems have "i \<noteq> 0" "j \<noteq> 0" by (auto simp: nth_Cons split: nat.splits)
      then obtain i' j' where ij: "i = Suc i'" "j = Suc j'"
        by (metis not0_implies_Suc)
      show False
        by (rule Cons.IH[of i' j']) (use True Cons.prems ij in auto)
    next
      case False
      with Cons.prems(1) have d': "xs \<notin> set (removeAll [] xss)" "distinct (removeAll [] xss)"
        by simp_all
      show False
      proof (cases i)
        case 0
        then obtain j' where j: "j = Suc j'" using Cons.prems(2) by (cases j) auto
        have "xss ! j' \<in> set xss" using Cons.prems(6) j by simp
        moreover have "xss ! j' = xs" using Cons.prems(3) 0 j by simp
        ultimately show False using d'(1) False by auto
      next
        case (Suc i')
        show False
        proof (cases j)
          case 0
          have "xss ! i' \<in> set xss" using Cons.prems(5) Suc by simp
          moreover have "xss ! i' = xs" using Cons.prems(3) 0 Suc by simp
          ultimately show False using d'(1) False by auto
        next
          case (Suc j')
          show False
            by (rule Cons.IH[of i' j'])
               (use d'(2) Cons.prems Suc \<open>i = Suc i'\<close> in auto)
        qed
      qed
    qed
  qed
qed

lemma cube_nonpos: "n \<le> 0 \<Longrightarrow> n * n * n \<le> (0::int)"
  by (intro mult_nonneg_nonpos zero_le_square)

lemma cell_nat: "cell vd (int i) = (i < length vd \<and> vd ! i)"
  by (simp add: cell_def)

lemma occupied_position_of:
  assumes "0 < n" "length vd = nat (n * n * n)" "i < length vd" "vd ! i"
  shows "occupied vd n (position_of n i)"
proof -
  have i: "i < nat (n * n * n)" using assms(2,3) by simp
  show ?thesis
    unfolding occupied_iff linear_position_of(2)[OF assms(1) i] cell_nat
    using linear_position_of(1)[OF assms(1) i] assms(3,4) by simp
qed

lemma occupied_index:
  assumes "occupied vd n p"
  shows "nat (cell_index n p) < length vd \<and> vd ! nat (cell_index n p)"
  using assms by (simp add: occupied_iff cell_def)

lemma occupied_exists_iff:
  assumes "length vd = nat (n * n * n)"
  shows "(\<exists>p. occupied vd n p) = (\<exists>i<length vd. vd ! i)"
proof
  assume "\<exists>p. occupied vd n p"
  then show "\<exists>i<length vd. vd ! i"
    using occupied_index by blast
next
  assume "\<exists>i<length vd. vd ! i"
  then obtain i where i: "i < length vd" "vd ! i" by blast
  have "0 < n"
  proof (rule ccontr)
    assume "\<not> 0 < n"
    then have "n * n * n \<le> 0"
      by (intro cube_nonpos) simp
    with assms i(1) show False by simp
  qed
  from occupied_position_of[OF this assms i] show "\<exists>p. occupied vd n p" by blast
qed

lemma findConnectedComponents_empty_iff:
  "(findConnectedComponents (Some vd) n = []) = (\<forall>p. \<not> occupied vd n p)"
proof -
  have "(findConnectedComponents (Some vd) n = [])
      = (set (concat (findConnectedComponents (Some vd) n)) = {})"
    using findConnectedComponents_sound(3)[of vd n]
    by (cases "findConnectedComponents (Some vd) n") auto
  then show ?thesis
    by (simp only: findConnectedComponents_sound(2)) auto
qed

text \<open>
  C1. For a grid of side \<open>n\<close> (an array of \<open>n\<^sup>3\<close> booleans) the components returned by
  \<open>findConnectedComponents\<close> partition the occupied cells: no position occurs twice
  within or across components, no component is empty, the positions listed are exactly
  the occupied cells, every set cell of the array lies in exactly one component, and
  the list is empty exactly when no cell is set; it is also empty for \<open>null\<close> data and for
  a non-positive size.
\<close>

theorem findConnectedComponents_partition:
  "(length vd = nat (n * n * n) \<longrightarrow>
      distinct (concat (findConnectedComponents (Some vd) n))
      \<and> [] \<notin> set (findConnectedComponents (Some vd) n)
      \<and> (\<forall>p. (p \<in> set (concat (findConnectedComponents (Some vd) n))) = occupied vd n p)
      \<and> (\<forall>i<length vd. vd ! i \<longrightarrow>
            (\<exists>!k. k < length (findConnectedComponents (Some vd) n)
                 \<and> position_of n i \<in> set (findConnectedComponents (Some vd) n ! k)))
      \<and> ((findConnectedComponents (Some vd) n = []) = (\<forall>i<length vd. \<not> vd ! i)))
   \<and> findConnectedComponents None n = []
   \<and> (n \<le> 0 \<longrightarrow> findConnectedComponents data n = [])"
proof (intro conjI impI allI)
  let ?cs = "findConnectedComponents (Some vd) n"
  show "findConnectedComponents None n = []"
    by (simp add: findConnectedComponents_def)
  show "findConnectedComponents data n = []" if "n \<le> 0"
    using that by (cases data) (simp_all add: findConnectedComponents_def)
  assume len: "length vd = nat (n * n * n)"
  show "distinct (concat ?cs)"
    by (rule findConnectedComponents_sound(1))
  show "[] \<notin> set ?cs"
    by (rule findConnectedComponents_sound(3))
  show "(p \<in> set (concat ?cs)) = occupied vd n p" for p
    by (simp only: findConnectedComponents_sound(2)) simp
  show "(?cs = []) = (\<forall>i<length vd. \<not> vd ! i)"
    using occupied_exists_iff[OF len] by (auto simp: findConnectedComponents_empty_iff)
  show "\<exists>!k. k < length ?cs \<and> position_of n i \<in> set (?cs ! k)"
    if i: "i < length vd" "vd ! i" for i
  proof -
    have "0 < n"
    proof (rule ccontr)
      assume "\<not> 0 < n"
      then have "n * n * n \<le> 0"
        by (intro cube_nonpos) simp
      with len i(1) show False by simp
    qed
    from occupied_position_of[OF this len i]
    have "position_of n i \<in> set (concat ?cs)"
      by (simp only: findConnectedComponents_sound(2)) simp
    then obtain c where "c \<in> set ?cs" "position_of n i \<in> set c"
      by auto
    then obtain k where k: "k < length ?cs" "position_of n i \<in> set (?cs ! k)"
      by (auto simp: in_set_conv_nth)
    show ?thesis
    proof (rule ex1I[of _ k])
      show "k < length ?cs \<and> position_of n i \<in> set (?cs ! k)"
        using k by simp
    next
      fix j
      assume "j < length ?cs \<and> position_of n i \<in> set (?cs ! j)"
      then show "j = k"
        using concat_unique_index[OF findConnectedComponents_sound(1), of j vd n k "position_of n i"] k
        by simp
    qed
  qed
qed

theorem findConnectedComponents_partition_witness:
  "findConnectedComponents (Some [True, True, False, False, False, False, False, True]) 2
     = [[(0, 0, 0), (1, 0, 0)], [(1, 1, 1)]]
   \<and> distinct (concat
        (findConnectedComponents (Some [True, True, False, False, False, False, False, True]) 2))
   \<and> (\<forall>p. (p \<in> set (concat
        (findConnectedComponents (Some [True, True, False, False, False, False, False, True]) 2)))
          = occupied [True, True, False, False, False, False, False, True] 2 p)
   \<and> (\<exists>!k. k < length
          (findConnectedComponents (Some [True, True, False, False, False, False, False, True]) 2)
        \<and> position_of 2 7
            \<in> set (findConnectedComponents
                     (Some [True, True, False, False, False, False, False, True]) 2 ! k))
   \<and> findConnectedComponents (Some [False, False, False, False, False, False, False, False]) 2 = []
   \<and> findConnectedComponents (Some [True]) 0 = []"
proof -
  let ?G = "[True, True, False, False, False, False, False, True]"
  let ?E = "[False, False, False, False, False, False, False, False]"
  have c: "findConnectedComponents (Some ?G) 2 = [[(0, 0, 0), (1, 0, 0)], [(1, 1, 1)]]"
    by code_simp
  have lenG: "length ?G = nat (2 * 2 * 2)" and lenE: "length ?E = nat (2 * 2 * 2)"
    by simp_all
  have e: "\<forall>i<length ?E. \<not> ?E ! i"
    unfolding filter_empty_iff[symmetric] by simp
  have i7: "7 < length ?G" "?G ! 7"
    by simp_all
  from findConnectedComponents_partition[of ?G 2 None] lenG
  have g: "distinct (concat (findConnectedComponents (Some ?G) 2))"
    "\<forall>p. (p \<in> set (concat (findConnectedComponents (Some ?G) 2))) = occupied ?G 2 p"
    "\<forall>i<length ?G. ?G ! i \<longrightarrow>
       (\<exists>!k. k < length (findConnectedComponents (Some ?G) 2)
            \<and> position_of 2 i \<in> set (findConnectedComponents (Some ?G) 2 ! k))"
    by blast+
  from g(3) i7
  have u: "\<exists>!k. k < length (findConnectedComponents (Some ?G) 2)
            \<and> position_of 2 7 \<in> set (findConnectedComponents (Some ?G) 2 ! k)"
    by blast
  from findConnectedComponents_partition[of ?E 2 None] lenE e
  have z: "findConnectedComponents (Some ?E) 2 = []"
    by blast
  have "(0::int) \<le> 0" by simp
  with findConnectedComponents_partition[of "[]" 0 "Some [True]"]
  have "findConnectedComponents (Some [True]) 0 = []"
    by blast
  with c g(1,2) u z show ?thesis by blast
qed

section \<open>Connectivity of a shape\<close>

lemma isShapeConnected_while_closed:
  assumes "set queue \<subseteq> visited"
    and "\<forall>(x, y, z) \<in> visited - set queue.
           \<forall>c \<in> set (getNeighbors x y z ctype). occupied vd n c \<longrightarrow> c \<in> visited"
  shows "visited \<subseteq> isShapeConnected_while vd n ctype visited queue
         \<and> closed_under vd n ctype (isShapeConnected_while vd n ctype visited queue)"
  using assms
proof (induction vd n ctype visited queue rule: isShapeConnected_while.induct)
  case (1 vd n ctype visited)
  then show ?case by (simp add: closed_under_def)
next
  case (2 vd n ctype visited x y z rest)
  let ?nbs = "getNeighbors x y z ctype"
  from fold_visit_result[of vd n ?nbs visited rest] obtain new where
    new: "fold (visit vd n) ?nbs (visited, rest) = (visited \<union> set new, rest @ new)"
      "set new = {p \<in> set ?nbs. occupied vd n p} - visited"
    by blast
  have q: "set (rest @ new) \<subseteq> visited \<union> set new"
    using "2.prems"(1) by auto
  have c: "\<forall>(a, b, c) \<in> (visited \<union> set new) - set (rest @ new).
             \<forall>d \<in> set (getNeighbors a b c ctype). occupied vd n d \<longrightarrow> d \<in> visited \<union> set new"
  proof (clarify)
    fix a b c d
    assume p: "(a, b, c) \<in> visited \<union> set new" "(a, b, c) \<notin> set (rest @ new)"
      and d: "d \<in> set (getNeighbors a b c ctype)" "occupied vd n d" "d \<notin> set new"
    show "d \<in> visited"
    proof (cases "(a, b, c) = (x, y, z)")
      case True
      then show ?thesis using d new(2) by auto
    next
      case False
      then have "(a, b, c) \<in> visited - set ((x, y, z) # rest)"
        using p by auto
      then show ?thesis using "2.prems"(2) d by blast
    qed
  qed
  have "visited \<union> set new \<subseteq> isShapeConnected_while vd n ctype (visited \<union> set new) (rest @ new)
      \<and> closed_under vd n ctype
           (isShapeConnected_while vd n ctype (visited \<union> set new) (rest @ new))"
    by (rule "2.IH"[OF new(1)[symmetric] q c])
  then show ?case
    using new(1) by auto
qed

lemma isShapeConnected_while_least:
  assumes "visited \<subseteq> S" "set queue \<subseteq> S" "closed_under vd n ctype S"
  shows "isShapeConnected_while vd n ctype visited queue \<subseteq> S"
  using assms
proof (induction vd n ctype visited queue rule: isShapeConnected_while.induct)
  case (1 vd n ctype visited)
  then show ?case by simp
next
  case (2 vd n ctype visited x y z rest)
  let ?nbs = "getNeighbors x y z ctype"
  from fold_visit_result[of vd n ?nbs visited rest] obtain new where
    new: "fold (visit vd n) ?nbs (visited, rest) = (visited \<union> set new, rest @ new)"
      "set new = {p \<in> set ?nbs. occupied vd n p} - visited"
    by blast
  have "(x, y, z) \<in> S" using "2.prems"(2) by simp
  then have n: "set new \<subseteq> S"
    using "2.prems"(3) new(2) by (fastforce simp: closed_under_def)
  have "isShapeConnected_while vd n ctype (visited \<union> set new) (rest @ new) \<subseteq> S"
    by (rule "2.IH"[OF new(1)[symmetric]]) (use n "2.prems" in auto)
  then show ?case
    using new(1) by simp
qed

lemma getNeighbors_face_subset:
  "set (getNeighbors x y z ''face'') \<subseteq> set (getNeighbors x y z ctype)"
  by (simp add: getNeighbors_def)

lemma getNeighbors_edge_subset:
  "set (getNeighbors x y z ''edge'') \<subseteq> set (getNeighbors x y z ''corner'')"
  by (simp add: getNeighbors_def) blast

lemma closed_under_face: "closed_under vd n ctype S \<Longrightarrow> closed_under vd n ''face'' S"
  unfolding closed_under_def using getNeighbors_face_subset by blast

lemma closed_under_occupied: "closed_under vd n ctype {p. occupied vd n p}"
  by (simp add: closed_under_def)

lemma isShapeConnected_while_occupied:
  assumes "occupied vd n s"
  shows "isShapeConnected_while vd n ctype {s} [s] \<subseteq> {p. occupied vd n p}"
  by (rule isShapeConnected_while_least) (use assms closed_under_occupied in auto)

lemma isShapeConnected_while_face_subset:
  "isShapeConnected_while vd n ''face'' {s} [s] \<subseteq> isShapeConnected_while vd n ctype {s} [s]"
proof -
  have *: "{s} \<subseteq> isShapeConnected_while vd n ctype {s} [s]
      \<and> closed_under vd n ctype (isShapeConnected_while vd n ctype {s} [s])"
    by (rule isShapeConnected_while_closed) auto
  show ?thesis
    by (rule isShapeConnected_while_least) (use * closed_under_face in auto)
qed

lemma isShapeConnected_many:
  assumes "\<not> n \<le> 0" "2 \<le> length (voxelPositions vd n)"
  shows "isShapeConnected (Some vd) n ctype
         = ({p. occupied vd n p}
              \<subseteq> isShapeConnected_while vd n ctype {voxelPositions vd n ! 0} [voxelPositions vd n ! 0])"
proof -
  let ?vps = "voxelPositions vd n"
  let ?R = "isShapeConnected_while vd n ctype {?vps ! 0} [?vps ! 0]"
  let ?O = "{p. occupied vd n p}"
  have "0 < length ?vps" using assms(2) by linarith
  then have "?vps ! 0 \<in> set ?vps" by (rule nth_mem)
  then have "occupied vd n (?vps ! 0)" by (simp add: set_voxelPositions)
  then have sub: "?R \<subseteq> ?O" by (rule isShapeConnected_while_occupied)
  have fin: "finite ?O" using set_voxelPositions[of vd n] by (metis List.finite_set)
  have card: "card ?O = length ?vps" by (simp add: length_voxelPositions)
  have "isShapeConnected (Some vd) n ctype = (card ?R = length ?vps)"
    using assms by (auto simp: isShapeConnected_def Let_def)
  also have "\<dots> = (card ?R = card ?O)" by (simp add: card)
  also have "\<dots> = (?R = ?O)"
    using sub fin by (metis card_subset_eq)
  also have "\<dots> = (?O \<subseteq> ?R)"
    using sub by auto
  finally show ?thesis .
qed

lemma isShapeConnected_face_imp:
  assumes "isShapeConnected data n ''face''"
  shows "isShapeConnected data n ctype"
proof (cases data)
  case None
  with assms show ?thesis by (simp add: isShapeConnected_def)
next
  case (Some vd)
  let ?vps = "voxelPositions vd n"
  have pos: "\<not> n \<le> 0" and ne: "length ?vps \<noteq> 0"
    using assms Some by (auto simp: isShapeConnected_def Let_def split: if_splits)
  show ?thesis
  proof (cases "length ?vps = 1")
    case True
    then show ?thesis using pos Some by (auto simp: isShapeConnected_def)
  next
    case False
    with ne have many: "2 \<le> length ?vps" by linarith
    show ?thesis
      using assms isShapeConnected_while_face_subset[of vd n "?vps ! 0" ctype]
      unfolding Some isShapeConnected_many[OF pos many] by blast
  qed
qed

lemma card_occupied:
  assumes "0 < n" "length vd = nat (n * n * n)"
  shows "card {p. occupied vd n p} = length (filter (\<lambda>v. v) vd)"
proof -
  let ?O = "{p. occupied vd n p}"
  let ?I = "{i. i < length vd \<and> vd ! i}"
  have "bij_betw (\<lambda>p. nat (cell_index n p)) ?O ?I"
  proof (rule bij_betw_byWitness[where f' = "position_of n"])
    show "\<forall>p \<in> ?O. position_of n (nat (cell_index n p)) = p"
      by (simp add: occupied_iff position_of_linear)
    show "\<forall>i \<in> ?I. nat (cell_index n (position_of n i)) = i"
      using assms by (simp add: linear_position_of(2))
    show "(\<lambda>p. nat (cell_index n p)) ` ?O \<subseteq> ?I"
      using occupied_index by auto
    show "position_of n ` ?I \<subseteq> ?O"
      using occupied_position_of[OF assms] by auto
  qed
  then have "card ?O = card ?I"
    by (rule bij_betw_same_card)
  then show ?thesis
    by (simp add: length_filter_conv_card)
qed

lemma isShapeConnected_none_set:
  assumes "\<forall>i<length vd. \<not> vd ! i"
  shows "\<not> isShapeConnected (Some vd) n ctype"
proof -
  have "\<forall>p. \<not> occupied vd n p"
    using assms occupied_index by blast
  then have "voxelPositions vd n = []"
    using voxelPositions_empty_iff[of vd n] by blast
  then show ?thesis
    by (simp add: isShapeConnected_def)
qed

lemma isShapeConnected_one_set:
  assumes "length vd = nat (n * n * n)" "length (filter (\<lambda>v. v) vd) = 1"
  shows "isShapeConnected (Some vd) n ctype"
proof -
  have "length vd \<noteq> 0"
    using assms(2) by auto
  with assms(1) have "0 < n * n * n" by simp
  then have pos: "0 < n"
    using cube_nonpos[of n] by linarith
  have "length (voxelPositions vd n) = 1"
    using card_occupied[OF pos assms(1)] assms(2) by (simp add: length_voxelPositions)
  then show ?thesis
    using pos by (auto simp: isShapeConnected_def)
qed

text \<open>
  C2. \<open>isShapeConnected\<close> is false on a grid without occupied cells and true on a grid
  (an array of \<open>n\<^sup>3\<close> booleans) with exactly one; a shape connected under \<open>face\<close> is
  connected under \<open>edge\<close> and under \<open>corner\<close>. The neighbours under \<open>face\<close> are the 6
  axis steps, under \<open>edge\<close> these and 12 more, under \<open>corner\<close> these 18 and 8 more.
\<close>

theorem isShapeConnected_monotone:
  "((\<forall>i<length vd. \<not> vd ! i) \<longrightarrow> \<not> isShapeConnected (Some vd) n ctype)
   \<and> (length vd = nat (n * n * n) \<and> length (filter (\<lambda>v. v) vd) = 1
        \<longrightarrow> isShapeConnected (Some vd) n ctype)
   \<and> (isShapeConnected data n ''face''
        \<longrightarrow> isShapeConnected data n ''edge'' \<and> isShapeConnected data n ''corner'')
   \<and> getNeighbors x y z ''face'' = map (\<lambda>(dx, dy, dz). (x + dx, y + dy, z + dz)) faceDirections
   \<and> getNeighbors x y z ''edge''
       = getNeighbors x y z ''face''
         @ map (\<lambda>(dx, dy, dz). (x + dx, y + dy, z + dz)) edgeDirections
   \<and> getNeighbors x y z ''corner''
       = getNeighbors x y z ''edge''
         @ map (\<lambda>(dx, dy, dz). (x + dx, y + dy, z + dz)) cornerDirections
   \<and> length faceDirections = 6 \<and> length edgeDirections = 12 \<and> length cornerDirections = 8
   \<and> distinct (faceDirections @ edgeDirections @ cornerDirections)"
proof (intro conjI impI)
  assume "\<forall>i<length vd. \<not> vd ! i"
  then show "\<not> isShapeConnected (Some vd) n ctype"
    by (rule isShapeConnected_none_set)
next
  assume "length vd = nat (n * n * n) \<and> length (filter (\<lambda>v. v) vd) = 1"
  then show "isShapeConnected (Some vd) n ctype"
    using isShapeConnected_one_set by blast
next
  assume f: "isShapeConnected data n ''face''"
  then show "isShapeConnected data n ''edge''" by (rule isShapeConnected_face_imp)
  from f show "isShapeConnected data n ''corner''" by (rule isShapeConnected_face_imp)
next
  show "distinct (faceDirections @ edgeDirections @ cornerDirections)"
    by (simp add: faceDirections_def edgeDirections_def cornerDirections_def)
qed (simp_all add: getNeighbors_def faceDirections_def edgeDirections_def cornerDirections_def)

theorem isShapeConnected_monotone_witness:
  "isShapeConnected (Some [True, True, False, False, False, False, False, False]) 2 ''face''
   \<and> isShapeConnected (Some [True, True, False, False, False, False, False, False]) 2 ''edge''
   \<and> isShapeConnected (Some [True, True, False, False, False, False, False, False]) 2 ''corner''
   \<and> \<not> isShapeConnected (Some [False, False, False, False, False, False, False, False]) 2 ''face''
   \<and> isShapeConnected (Some [False, False, False, False, False, False, False, True]) 2 ''face''
   \<and> \<not> isShapeConnected (Some [True, False, False, False, False, False, False, True]) 2 ''face''
   \<and> isShapeConnected (Some [True, False, False, False, False, False, False, True]) 2 ''corner''"
proof -
  let ?G = "[True, True, False, False, False, False, False, False]"
  let ?E = "[False, False, False, False, False, False, False, False]"
  let ?S = "[False, False, False, False, False, False, False, True]"
  let ?D = "[True, False, False, False, False, False, False, True]"
  have f: "isShapeConnected (Some ?G) 2 ''face''"
    by code_simp
  have e: "\<forall>i<length ?E. \<not> ?E ! i"
    unfolding filter_empty_iff[symmetric] by simp
  have s: "length ?S = nat (2 * 2 * 2) \<and> length (filter (\<lambda>v. v) ?S) = 1"
    by simp
  have d: "\<not> isShapeConnected (Some ?D) 2 ''face''" "isShapeConnected (Some ?D) 2 ''corner''"
    by code_simp+
  from isShapeConnected_monotone[of ?G 2 "''face''" "Some ?G" 0 0 0] f
  have "isShapeConnected (Some ?G) 2 ''edge'' \<and> isShapeConnected (Some ?G) 2 ''corner''"
    by blast
  moreover from isShapeConnected_monotone[of ?E 2 "''face''" None 0 0 0] e
  have "\<not> isShapeConnected (Some ?E) 2 ''face''"
    by blast
  moreover from isShapeConnected_monotone[of ?S 2 "''face''" None 0 0 0] s
  have "isShapeConnected (Some ?S) 2 ''face''"
    by blast
  ultimately show ?thesis using f d by blast
qed

section \<open>Resampling\<close>

lemma set_cube: "set (cube n) = {p. in_cube n p}"
  by (auto simp: cube_def in_cube_def)

lemma distinct_cube: "distinct (cube n)"
  unfolding cube_def by (intro distinct_product) simp_all

lemma fold_product:
  "fold (\<lambda>x. fold (f x) ys) xs = fold (\<lambda>(x, y). f x y) (List.product xs ys)"
  by (induction xs) (simp_all add: fold_map comp_def)

lemma fold_cube:
  "fold (\<lambda>x. fold (\<lambda>y. fold (f x y) zs) ys) xs
     = fold (\<lambda>(x, y, z). f x y z) (List.product xs (List.product ys zs))"
proof -
  have "fold (\<lambda>x. fold (\<lambda>y. fold (f x y) zs) ys) xs
      = fold (\<lambda>x. fold (\<lambda>(y, z). f x y z) (List.product ys zs)) xs"
    by (simp add: fold_product)
  also have "\<dots> = fold (\<lambda>(x, y, z). f x y z) (List.product xs (List.product ys zs))"
    using fold_product[of "\<lambda>x (y, z). f x y z" "List.product ys zs" xs]
    by (simp add: case_prod_unfold)
  finally show ?thesis .
qed

lemma array_set_in_range:
  "0 \<le> i \<Longrightarrow> nat i < length a \<Longrightarrow> array_set a i v = a[nat i := v]"
  by (simp add: array_set_def)

lemma fold_array_set:
  assumes "distinct ps" "inj_on k (set ps)" "\<forall>p \<in> set ps. 0 \<le> k p \<and> nat (k p) < length a"
  shows "length (fold (\<lambda>p a. array_set a (k p) (v p)) ps a) = length a
         \<and> (\<forall>p \<in> set ps. fold (\<lambda>p a. array_set a (k p) (v p)) ps a ! nat (k p) = v p)
         \<and> (\<forall>i<length a. int i \<notin> k ` set ps
               \<longrightarrow> fold (\<lambda>p a. array_set a (k p) (v p)) ps a ! i = a ! i)"
  using assms
proof (induction ps arbitrary: a)
  case Nil
  then show ?case by simp
next
  case (Cons p ps)
  let ?a = "a[nat (k p) := v p]"
  let ?F = "fold (\<lambda>p a. array_set a (k p) (v p))"
  have kp: "0 \<le> k p" "nat (k p) < length a"
    using Cons.prems(3) by simp_all
  have step: "?F (p # ps) a = ?F ps ?a"
    using kp by (simp add: array_set_in_range)
  have d: "distinct ps" and i: "inj_on k (set ps)"
    and r: "\<forall>q \<in> set ps. 0 \<le> k q \<and> nat (k q) < length ?a"
    using Cons.prems by (simp_all add: inj_on_def)
  note IH = Cons.IH[OF d i r]
  have fresh: "int (nat (k p)) \<notin> k ` set ps"
  proof
    assume "int (nat (k p)) \<in> k ` set ps"
    then obtain q where q: "q \<in> set ps" "k q = k p"
      using kp(1) by auto
    with Cons.prems(2) have "q = p"
      by (auto simp: inj_on_def)
    with q(1) Cons.prems(1) show False by simp
  qed
  have len: "length (?F (p # ps) a) = length a"
    unfolding step using IH by simp
  have at_p: "?F (p # ps) a ! nat (k p) = v p"
  proof -
    have "?F ps ?a ! nat (k p) = ?a ! nat (k p)"
      using IH fresh kp(2) by simp
    then show ?thesis unfolding step using kp(2) by simp
  qed
  have at_ps: "\<forall>q \<in> set ps. ?F (p # ps) a ! nat (k q) = v q"
    unfolding step using IH by simp
  have other: "\<forall>i<length a. int i \<notin> k ` set (p # ps) \<longrightarrow> ?F (p # ps) a ! i = a ! i"
  proof (intro allI impI)
    fix i
    assume i: "i < length a" "int i \<notin> k ` set (p # ps)"
    then have "i \<noteq> nat (k p)" using kp(1) by auto
    moreover have "?F ps ?a ! i = ?a ! i"
      using IH i by simp
    ultimately show "?F (p # ps) a ! i = a ! i"
      unfolding step by simp
  qed
  show ?case
    using len at_p at_ps other by simp
qed

lemma cube_nonneg: "0 \<le> n \<Longrightarrow> 0 \<le> n * n * (n::int)"
  by simp

lemma convertGridSize_expand:
  assumes "0 \<le> T" "S \<le> T" "T * T * T \<le> 4294967295"
  shows "convertGridSize vd S T
         = Inr (fold (\<lambda>p a. array_set a (cell_index T (shift ((T - S) div 2) p)) (cell vd (cell_index S p)))
                  (cube S) (replicate (nat (T * T * T)) False))"
proof -
  have nn: "\<not> (T * T * T < 0 \<or> 4294967295 < T * T * T)"
    using cube_nonneg[OF assms(1)] assms(3) by simp
  have f: "(\<lambda>(x, y, z) a. array_set a
              (x + (T - S) div 2 + (y + (T - S) div 2) * T + (z + (T - S) div 2) * T * T)
              (cell vd (x + y * S + z * S * S)))
         = (\<lambda>p a. array_set a (cell_index T (shift ((T - S) div 2) p)) (cell vd (cell_index S p)))"
    by (auto simp: fun_eq_iff cell_index_def shift_def)
  show ?thesis
    unfolding convertGridSize_def Let_def fold_cube cube_def[symmetric] f
    using nn assms(2) by simp
qed

lemma convertGridSize_crop:
  assumes "0 \<le> T" "T < S" "T * T * T \<le> 4294967295"
  shows "convertGridSize vd S T
         = Inr (fold (\<lambda>p a. array_set a (cell_index T p) (cell vd (cell_index S (shift ((S - T) div 2) p))))
                  (cube T) (replicate (nat (T * T * T)) False))"
proof -
  let ?d = "(S - T) div 2"
  have nn: "\<not> (T * T * T < 0 \<or> 4294967295 < T * T * T)"
    using cube_nonneg[OF assms(1)] assms(3) by simp
  have d: "?d \<le> S - T" using assms(2) by simp
  have g: "fold (\<lambda>(x, y, z) a.
              if x + ?d < S \<and> y + ?d < S \<and> z + ?d < S
              then array_set a (x + y * T + z * T * T)
                     (cell vd (x + ?d + (y + ?d) * S + (z + ?d) * S * S))
              else a) (cube T) a0
         = fold (\<lambda>p a. array_set a (cell_index T p) (cell vd (cell_index S (shift ?d p)))) (cube T) a0"
    for a0
  proof (rule fold_cong[OF refl refl])
    fix p assume "p \<in> set (cube T)"
    then have c: "in_cube T p"
      by (simp add: set_cube)
    obtain x y z where p: "p = (x, y, z)"
      by (cases p) auto
    with c have "x < T" "y < T" "z < T"
      by (simp_all add: in_cube_def)
    then have "x + ?d < S" "y + ?d < S" "z + ?d < S"
      using d by linarith+
    then show "(case p of (x, y, z) \<Rightarrow> \<lambda>a.
              if x + ?d < S \<and> y + ?d < S \<and> z + ?d < S
              then array_set a (x + y * T + z * T * T)
                     (cell vd (x + ?d + (y + ?d) * S + (z + ?d) * S * S))
              else a)
         = (\<lambda>a. array_set a (cell_index T p) (cell vd (cell_index S (shift ?d p))))"
      by (simp add: p cell_index_def shift_def)
  qed
  show ?thesis
    unfolding convertGridSize_def Let_def fold_cube cube_def[symmetric] g
    using nn assms(2) by simp
qed

lemma linear_index:
  assumes "in_cube n p"
  shows "nat (cell_index n p) < nat (n * n * n)"
  using linear_bounds[OF assms] by simp

lemma cell_in_cube:
  assumes "in_cube n p" "length g = nat (n * n * n)"
  shows "cell g (cell_index n p) = g ! nat (cell_index n p)"
  using linear_bounds(1)[OF assms(1)] linear_index[OF assms(1)] assms(2)
  by (simp add: cell_def)

lemma shift_in_cube:
  assumes "in_cube S p" "0 \<le> d" "S + d \<le> T"
  shows "in_cube T (shift d p)"
  using assms by (cases p) (auto simp: in_cube_def shift_def)

lemma shift_inj: "shift d p = shift d q \<Longrightarrow> p = q"
  by (cases p, cases q) (simp add: shift_def)

lemma grid_eqI:
  assumes "0 < n" "length r = nat (n * n * n)" "length g = nat (n * n * n)"
    and "\<And>p. in_cube n p \<Longrightarrow> r ! nat (cell_index n p) = g ! nat (cell_index n p)"
  shows "r = g"
proof (rule nth_equalityI)
  show "length r = length g" using assms(2,3) by simp
next
  fix i assume "i < length r"
  then have i: "i < nat (n * n * n)" using assms(2) by simp
  from assms(4)[OF linear_position_of(1)[OF assms(1) i]]
  show "r ! i = g ! i"
    by (simp add: linear_position_of(2)[OF assms(1) i])
qed

lemma expand_cells:
  assumes "0 \<le> S" "S \<le> T" "T * T * T \<le> 4294967295"
  shows "\<exists>r. convertGridSize vd S T = Inr r \<and> length r = nat (T * T * T)
           \<and> (\<forall>p. in_cube S p \<longrightarrow>
                  r ! nat (cell_index T (shift ((T - S) div 2) p)) = cell vd (cell_index S p))"
proof -
  let ?d = "(T - S) div 2"
  let ?k = "\<lambda>p. cell_index T (shift ?d p)"
  let ?v = "\<lambda>p. cell vd (cell_index S p)"
  let ?a = "replicate (nat (T * T * T)) False"
  let ?r = "fold (\<lambda>p a. array_set a (?k p) (?v p)) (cube S) ?a"
  have T: "0 \<le> T" using assms by simp
  have d: "0 \<le> ?d" "S + ?d \<le> T" using assms(2) by simp_all
  have sh: "in_cube T (shift ?d p)" if "in_cube S p" for p
    using that d by (rule shift_in_cube)
  have inj: "inj_on ?k (set (cube S))"
  proof (rule inj_onI)
    fix p q assume "p \<in> set (cube S)" "q \<in> set (cube S)" "?k p = ?k q"
    then have "shift ?d p = shift ?d q"
      by (intro linear_inj[of T]) (simp_all add: set_cube sh)
    then show "p = q" by (rule shift_inj)
  qed
  have rng: "\<forall>p \<in> set (cube S). 0 \<le> ?k p \<and> nat (?k p) < length ?a"
  proof
    fix p assume "p \<in> set (cube S)"
    then have "in_cube T (shift ?d p)"
      by (simp add: set_cube sh)
    then show "0 \<le> ?k p \<and> nat (?k p) < length ?a"
      using linear_bounds(1) linear_index by simp
  qed
  from fold_array_set[OF distinct_cube inj rng, of ?v]
  have "length ?r = nat (T * T * T)"
    and "\<forall>p. in_cube S p \<longrightarrow> ?r ! nat (?k p) = ?v p"
    by (simp_all add: set_cube)
  then show ?thesis
    unfolding convertGridSize_expand[OF T assms(2,3)] by blast
qed

lemma crop_cells:
  assumes "0 \<le> T" "T < S" "T * T * T \<le> 4294967295"
  shows "\<exists>r. convertGridSize vd S T = Inr r \<and> length r = nat (T * T * T)
           \<and> (\<forall>p. in_cube T p \<longrightarrow>
                  r ! nat (cell_index T p) = cell vd (cell_index S (shift ((S - T) div 2) p)))"
proof -
  let ?d = "(S - T) div 2"
  let ?k = "cell_index T"
  let ?v = "\<lambda>p. cell vd (cell_index S (shift ?d p))"
  let ?a = "replicate (nat (T * T * T)) False"
  let ?r = "fold (\<lambda>p a. array_set a (?k p) (?v p)) (cube T) ?a"
  have inj: "inj_on ?k (set (cube T))"
    by (rule inj_onI) (simp add: set_cube linear_inj)
  have rng: "\<forall>p \<in> set (cube T). 0 \<le> ?k p \<and> nat (?k p) < length ?a"
  proof
    fix p assume "p \<in> set (cube T)"
    then have "in_cube T p"
      by (simp add: set_cube)
    then show "0 \<le> ?k p \<and> nat (?k p) < length ?a"
      using linear_bounds(1) linear_index by simp
  qed
  from fold_array_set[OF distinct_cube inj rng, of ?v]
  have "length ?r = nat (T * T * T)"
    and "\<forall>p. in_cube T p \<longrightarrow> ?r ! nat (?k p) = ?v p"
    by (simp_all add: set_cube)
  then show ?thesis
    unfolding convertGridSize_crop[OF assms] by blast
qed

lemma convertGridSize_same:
  assumes "0 < n" "n * n * n \<le> 4294967295" "length g = nat (n * n * n)"
  shows "convertGridSize g n n = Inr g"
proof -
  have "0 \<le> n" "n \<le> n" using assms(1) by simp_all
  from expand_cells[OF this assms(2), of g] obtain r where
    r: "convertGridSize g n n = Inr r" "length r = nat (n * n * n)"
      "\<And>p. in_cube n p \<Longrightarrow> r ! nat (cell_index n (shift 0 p)) = cell g (cell_index n p)"
    by auto
  have s0: "shift 0 p = p" for p
    by (cases p) (simp add: shift_def)
  have "r = g"
    by (rule grid_eqI[OF assms(1) r(2) assms(3)])
       (use r(3) in \<open>simp add: s0 cell_in_cube[OF _ assms(3)]\<close>)
  with r(1) show ?thesis by simp
qed

lemma cube_mono:
  assumes "0 \<le> S" "S \<le> (T::int)"
  shows "S * S * S \<le> T * T * T"
proof -
  have "S * S \<le> T * T"
    using assms by (intro mult_mono) simp_all
  then show ?thesis
    using assms by (intro mult_mono) simp_all
qed

lemma convertGridSize_too_large:
  "4294967295 < T * T * T \<Longrightarrow> convertGridSize g S T = Inl RangeError"
  by (simp add: convertGridSize_def)

text \<open>
  C4, as the claim states it, fails: the grid \<open>[True]\<close> of size 1 and the sizes
  \<open>S = 1\<close>, \<open>T = 1626\<close> meet its hypotheses, but \<open>1626\<^sup>3 = 4298942376\<close> is not the length
  of any array and the expansion throws a \<^verbatim>\<open>RangeError\<close> instead of returning a grid.
\<close>

theorem convertGridSize_roundtrip_counterexample:
  "(1::int) \<le> 1 \<and> (1::int) \<le> 1626 \<and> length [True] = nat (1 * 1 * 1)
   \<and> convertGridSize [True] 1 1626 = Inl RangeError"
  by (simp add: convertGridSize_def)

text \<open>
  C4, amended. For grid sizes \<open>1 \<le> S \<le> T\<close> with \<open>T\<^sup>3 \<le> 2\<^sup>3\<^sup>2 - 1\<close> and a grid of size \<open>S\<close>,
  expanding to \<open>T\<close> succeeds with a grid of \<open>T\<^sup>3\<close> cells that holds every source cell at
  its coordinates moved by \<open>(T - S) div 2\<close>, and converting that grid back to size \<open>S\<close>
  returns the original grid; for \<open>T\<^sup>3 > 2\<^sup>3\<^sup>2 - 1\<close> the expansion throws a \<^verbatim>\<open>RangeError\<close>.
\<close>

theorem convertGridSize_roundtrip:
  "(1 \<le> S \<and> S \<le> T \<and> T * T * T \<le> 4294967295 \<and> length g = nat (S * S * S) \<longrightarrow>
     (\<exists>g'. convertGridSize g S T = Inr g'
          \<and> length g' = nat (T * T * T)
          \<and> (\<forall>x y z. 0 \<le> x \<and> x < S \<and> 0 \<le> y \<and> y < S \<and> 0 \<le> z \<and> z < S \<longrightarrow>
                cell g' ((x + (T - S) div 2) + (y + (T - S) div 2) * T
                         + (z + (T - S) div 2) * T * T)
                  = cell g (x + y * S + z * S * S))
          \<and> convertGridSize g' T S = Inr g))
   \<and> (4294967295 < T * T * T \<longrightarrow> convertGridSize g S T = Inl RangeError)"
proof (intro conjI impI)
  assume "4294967295 < T * T * T"
  then show "convertGridSize g S T = Inl RangeError"
    by (rule convertGridSize_too_large)
next
  assume a: "1 \<le> S \<and> S \<le> T \<and> T * T * T \<le> 4294967295 \<and> length g = nat (S * S * S)"
  then have S: "0 < S" "0 \<le> S" "S \<le> T" and len: "length g = nat (S * S * S)"
    and limT: "T * T * T \<le> 4294967295"
    by simp_all
  have limS: "S * S * S \<le> 4294967295"
    using cube_mono[OF S(2,3)] limT by simp
  let ?d = "(T - S) div 2"
  have d: "0 \<le> ?d" "S + ?d \<le> T" using S(3) by simp_all
  from expand_cells[OF S(2,3) limT, of g] obtain g' where
    g': "convertGridSize g S T = Inr g'" "length g' = nat (T * T * T)"
      "\<And>p. in_cube S p \<Longrightarrow> g' ! nat (cell_index T (shift ?d p)) = cell g (cell_index S p)"
    by blast
  have at: "cell g' (cell_index T (shift ?d p)) = cell g (cell_index S p)" if "in_cube S p" for p
    using g'(3)[OF that] cell_in_cube[OF shift_in_cube[OF that d] g'(2)] by simp
  have cells: "\<forall>x y z. 0 \<le> x \<and> x < S \<and> 0 \<le> y \<and> y < S \<and> 0 \<le> z \<and> z < S \<longrightarrow>
      cell g' ((x + ?d) + (y + ?d) * T + (z + ?d) * T * T) = cell g (x + y * S + z * S * S)"
  proof (intro allI impI)
    fix x y z
    assume "0 \<le> x \<and> x < S \<and> 0 \<le> y \<and> y < S \<and> 0 \<le> z \<and> z < S"
    then have "in_cube S (x, y, z)" by (simp add: in_cube_def)
    from at[OF this]
    show "cell g' ((x + ?d) + (y + ?d) * T + (z + ?d) * T * T) = cell g (x + y * S + z * S * S)"
      by (simp add: cell_index_def shift_def)
  qed
  have ret: "convertGridSize g' T S = Inr g"
  proof (cases "S = T")
    case True
    have "g' = g"
      using g'(1) convertGridSize_same[OF S(1) limS len] True by simp
    then show ?thesis
      using convertGridSize_same[OF S(1) limS len] True by simp
  next
    case False
    with S(3) have lt: "S < T" by simp
    from crop_cells[OF S(2) lt limS, of g'] obtain r where
      r: "convertGridSize g' T S = Inr r" "length r = nat (S * S * S)"
        "\<And>p. in_cube S p \<Longrightarrow> r ! nat (cell_index S p) = cell g' (cell_index T (shift ?d p))"
      by blast
    have "r = g"
      by (rule grid_eqI[OF S(1) r(2) len])
         (simp add: r(3) at cell_in_cube[OF _ len, symmetric])
    with r(1) show ?thesis by simp
  qed
  from g'(1,2) cells ret
  show "\<exists>g'. convertGridSize g S T = Inr g'
          \<and> length g' = nat (T * T * T)
          \<and> (\<forall>x y z. 0 \<le> x \<and> x < S \<and> 0 \<le> y \<and> y < S \<and> 0 \<le> z \<and> z < S \<longrightarrow>
                cell g' ((x + ?d) + (y + ?d) * T + (z + ?d) * T * T)
                  = cell g (x + y * S + z * S * S))
          \<and> convertGridSize g' T S = Inr g"
    by blast
qed

theorem convertGridSize_roundtrip_witness:
  "convertGridSize [True] 1 3
     = Inr [False, False, False, False, False, False, False, False, False,
            False, False, False, False, True, False, False, False, False,
            False, False, False, False, False, False, False, False, False]
   \<and> convertGridSize
       [False, False, False, False, False, False, False, False, False,
        False, False, False, False, True, False, False, False, False,
        False, False, False, False, False, False, False, False, False] 3 1
     = Inr [True]
   \<and> cell [False, False, False, False, False, False, False, False, False,
            False, False, False, False, True, False, False, False, False,
            False, False, False, False, False, False, False, False, False] 13
     = cell [True] 0
   \<and> convertGridSize [True] 1 2000 = Inl RangeError"
proof -
  let ?g' = "[False, False, False, False, False, False, False, False, False,
            False, False, False, False, True, False, False, False, False,
            False, False, False, False, False, False, False, False, False]"
  have e: "convertGridSize [True] 1 3 = Inr ?g'"
    by code_simp
  have "(1::int) \<le> 1 \<and> (1::int) \<le> 3 \<and> (3::int) * 3 * 3 \<le> 4294967295
      \<and> length [True] = nat (1 * 1 * 1)"
    by simp
  with convertGridSize_roundtrip[of 1 3 "[True]"]
  obtain g' where g': "convertGridSize [True] 1 3 = Inr g'" "convertGridSize g' 3 1 = Inr [True]"
    "\<forall>x y z. 0 \<le> x \<and> x < 1 \<and> 0 \<le> y \<and> y < 1 \<and> 0 \<le> z \<and> z < 1 \<longrightarrow>
       cell g' ((x + (3 - 1) div 2) + (y + (3 - 1) div 2) * 3 + (z + (3 - 1) div 2) * 3 * 3)
         = cell [True] (x + y * 1 + z * 1 * 1)"
    by blast
  from g'(3) have "cell g' ((0 + (3 - 1) div 2) + (0 + (3 - 1) div 2) * 3 + (0 + (3 - 1) div 2) * 3 * 3)
         = cell [True] (0 + 0 * 1 + 0 * 1 * 1)"
    by (rule allE[where x = 0], elim allE[where x = 0]) simp
  then have c: "cell g' 13 = cell [True] 0" by simp
  have "(4294967295::int) < 2000 * 2000 * 2000" by simp
  with convertGridSize_roundtrip[of 1 2000 "[True]"]
  have "convertGridSize [True] 1 2000 = Inl RangeError"
    by blast
  with e g'(1,2) c show ?thesis by simp
qed

section \<open>Shape validation\<close>







section \<open>Components are closed under face steps\<close>







section \<open>A disconnected shape with a large second component\<close>















end
